theory Spec2Isabelle
  imports Main "HOL-Library.Multiset"
begin

section \<open>The bounded packet queue of QNXcode.c\<close>

text \<open>
  QNXcode.c hands data packets from writer threads to reader threads through one shared
  queue: a singly linked list of heap nodes with a head and a tail pointer, an element
  count, two counting semaphores (\<open>full\<close> counts stored items, \<open>empty\<close> counts free
  slots) and a mutex. This theory embeds the data structures and the functions
  \<open>initializeQueue\<close>, \<open>enqueue\<close>, \<open>dequeue\<close>, \<open>get_external_data\<close> and the body of
  \<open>writer_thread\<close>, first as functions on an explicit program state (one call run from
  its first to its last statement), then statement by statement for several threads.
\<close>

subsection \<open>Data model\<close>

text \<open>
  Pointers are addresses, \<open>NULL\<close> is \<open>None\<close>. Three field names are suffixed because the
  library already uses them: \<open>size\<close> (\<open>size_p\<close>), \<open>count\<close> (\<open>count_q\<close>) and \<open>empty\<close>
  (\<open>empty_q\<close>); \<open>next\<close> is \<open>next_n\<close>. The two event identifiers are unsigned numbers
  that the program only sets to 0 and copies. The \<open>int\<close> fields are integers: \<open>size\<close> is
  a length below 1024 or \<open>-1\<close>, and \<open>count\<close> stays between 0 and the capacity (see the
  count invariant below), so neither leaves the range of \<open>int\<close>.
\<close>

type_synonym addr = nat
type_synonym tid = nat

record DataPacket =
  data :: "addr option"
  size_p :: int
  eventId :: nat
  eventCorrelationId :: nat

record Node =
  packet :: DataPacket
  next_n :: "addr option"

text \<open>
  The mutex is \<open>None\<close> when free and \<open>Some t\<close> when thread \<open>t\<close> holds it. A semaphore is
  its value.
\<close>

record Queue =
  head :: "addr option"
  tail :: "addr option"
  count_q :: int
  full :: nat
  empty_q :: nat
  lock :: "tid option"

text \<open>
  The program state: the global \<open>dataQueue\<close>, the heap of list nodes (\<open>malloc(sizeof(Node))\<close>),
  the heap of payload buffers (\<open>malloc(1024)\<close>) and the lines appended to the log file.
\<close>

record state = Queue +
  nodes :: "addr \<rightharpoonup> Node"
  bufs :: "addr \<rightharpoonup> string"
  logfile :: "string list"

text \<open>
  A call run on its own either returns, or blocks in \<open>sem_wait\<close> or \<open>pthread_mutex_lock\<close>
  (\<open>Blocks s\<close>, with the state \<open>s\<close> in which it waits), or does what C leaves undefined
  (\<open>Faults\<close>): it dereferences a pointer to a node that is not allocated, divides by zero
  or writes past the end of a buffer.
\<close>

datatype 'a outcome = Blocks state | Faults | Returns 'a

subsection \<open>Library primitives\<close>

text \<open>\<open>log_message\<close> appends one line to the log file (the file is taken as writable).\<close>

definition log_message :: "string \<Rightarrow> state \<Rightarrow> state" where
  "log_message message s = s\<lparr>logfile := logfile s @ [message]\<rparr>"

text \<open>
  \<open>sem_wait\<close> cannot pass a semaphore whose value is 0, and takes one off otherwise;
  \<open>sem_post\<close> adds one (the limit \<open>SEM_VALUE_MAX\<close> is not modelled).
\<close>

definition sem_wait :: "nat \<Rightarrow> nat option" where
  "sem_wait v = (if v = 0 then None else Some (v - 1))"

definition sem_post :: "nat \<Rightarrow> nat" where
  "sem_post v = v + 1"

text \<open>\<open>pthread_mutex_lock\<close> cannot pass a mutex that is held.\<close>

definition pthread_mutex_lock :: "tid \<Rightarrow> tid option \<Rightarrow> tid option option" where
  "pthread_mutex_lock t l = (case l of None \<Rightarrow> Some (Some t) | Some _ \<Rightarrow> None)"

definition pthread_mutex_unlock :: "tid option \<Rightarrow> tid option" where
  "pthread_mutex_unlock l = None"

subsection \<open>initializeQueue, enqueue, dequeue\<close>

text \<open>
  The parameter \<open>size\<close> of the source is \<open>sz\<close> here: the value \<open>sem_init\<close> receives for
  \<open>empty\<close> (an unsigned number; \<open>main\<close> passes 100), the capacity of the queue. It is not
  stored in the queue.
\<close>

definition initializeQueue :: "nat \<Rightarrow> state \<Rightarrow> state" where
  "initializeQueue sz s =
     log_message ''Queue initialized.''
       (s\<lparr>head := None, tail := None, count_q := 0, full := 0, empty_q := sz,
          lock := None\<rparr>)"

text \<open>
  The two critical sections. \<open>enqueue_link\<close> is lines 127 to 133 of the source: the new
  node \<open>n\<close> becomes the only node, or is hung behind the tail node, and the count goes up.
  \<open>dequeue_unlink\<close> is lines 163 to 170, for a head pointer \<open>temp\<close> that is not \<open>NULL\<close>:
  it returns the packet of the head node with the new state. Both are \<open>None\<close> when the
  pointer they follow leads to no allocated node.
\<close>

definition enqueue_link :: "addr \<Rightarrow> state \<Rightarrow> state option" where
  "enqueue_link n s =
     (case tail s of
        None \<Rightarrow> Some (s\<lparr>head := Some n, tail := Some n, count_q := count_q s + 1\<rparr>)
      | Some tp \<Rightarrow>
          (case nodes s tp of
             None \<Rightarrow> None
           | Some tn \<Rightarrow>
               Some (s\<lparr>nodes := (nodes s)(tp \<mapsto> tn\<lparr>next_n := Some n\<rparr>),
                        tail := Some n, count_q := count_q s + 1\<rparr>)))"

definition dequeue_unlink :: "addr \<Rightarrow> state \<Rightarrow> (state \<times> DataPacket) option" where
  "dequeue_unlink temp s =
     (case nodes s temp of
        None \<Rightarrow> None
      | Some tn \<Rightarrow>
          let s1 = s\<lparr>head := next_n tn\<rparr>;
              s2 = (if head s1 = None then s1\<lparr>tail := None\<rparr> else s1)
          in Some (s2\<lparr>count_q := count_q s2 - 1\<rparr>, packet tn))"

text \<open>
  \<open>newNode\<close> is what \<open>malloc\<close> returned to this call: \<open>None\<close> when it failed. The
  statements follow lines 114 to 137 of the source in order.
\<close>

definition enqueue :: "tid \<Rightarrow> addr option \<Rightarrow> DataPacket \<Rightarrow> state \<Rightarrow> state outcome" where
  "enqueue t newNode dat s =
     (case newNode of
        None \<Rightarrow> Returns (log_message ''Error: Memory allocation failed for new node.'' s)
      | Some n \<Rightarrow>
          let s1 = s\<lparr>nodes := (nodes s)(n \<mapsto> \<lparr>packet = dat, next_n = None\<rparr>)\<rparr> in
          (case sem_wait (empty_q s1) of
             None \<Rightarrow> Blocks s1
           | Some e \<Rightarrow>
               let s2 = s1\<lparr>empty_q := e\<rparr> in
               (case pthread_mutex_lock t (lock s2) of
                  None \<Rightarrow> Blocks s2
                | Some l \<Rightarrow>
                    (case enqueue_link n (s2\<lparr>lock := l\<rparr>) of
                       None \<Rightarrow> Faults
                     | Some s3 \<Rightarrow>
                         let s4 = s3\<lparr>lock := pthread_mutex_unlock (lock s3)\<rparr>;
                             s5 = s4\<lparr>full := sem_post (full s4)\<rparr>
                         in Returns (log_message ''Data enqueued.'' s5)))))"

text \<open>The packet \<open>{0}\<close> that \<open>dequeue\<close> starts with.\<close>

definition zero_packet :: DataPacket where
  "zero_packet = \<lparr>data = None, size_p = 0, eventId = 0, eventCorrelationId = 0\<rparr>"

text \<open>Lines 151 to 177 of the source, in order; \<open>free(temp)\<close> removes the node from the heap.\<close>

definition dequeue :: "tid \<Rightarrow> state \<Rightarrow> (state \<times> DataPacket) outcome" where
  "dequeue t s =
     (case sem_wait (full s) of
        None \<Rightarrow> Blocks s
      | Some f \<Rightarrow>
          let s1 = s\<lparr>full := f\<rparr> in
          (case pthread_mutex_lock t (lock s1) of
             None \<Rightarrow> Blocks s1
           | Some l \<Rightarrow>
               let s2 = s1\<lparr>lock := l\<rparr> in
               (case head s2 of
                  None \<Rightarrow>
                    let s3 = s2\<lparr>lock := pthread_mutex_unlock (lock s2)\<rparr>;
                        s4 = log_message ''Error: Tried to dequeue from an empty queue.'' s3;
                        s5 = s4\<lparr>empty_q := sem_post (empty_q s4)\<rparr>
                    in Returns (s5, zero_packet)
                | Some temp \<Rightarrow>
                    (case dequeue_unlink temp s2 of
                       None \<Rightarrow> Faults
                     | Some (s3, dat) \<Rightarrow>
                         let s4 = s3\<lparr>lock := pthread_mutex_unlock (lock s3)\<rparr>;
                             s5 = s4\<lparr>empty_q := sem_post (empty_q s4)\<rparr>;
                             s6 = s5\<lparr>nodes := (nodes s5)(temp := None)\<rparr>
                         in Returns (log_message ''Data dequeued.'' s6, dat)))))"

subsection \<open>get_external_data and the writer loop\<close>

text \<open>
  The operator \<open>%\<close> of C truncates towards zero: the remainder has the sign of the
  dividend.
\<close>

definition c_rem :: "int \<Rightarrow> int \<Rightarrow> int" where
  "c_rem a b = sgn a * (\<bar>a\<bar> mod \<bar>b\<bar>)"

text \<open>
  \<open>strncpy\<close> writes exactly \<open>n\<close> bytes to the start of \<open>dest\<close>: the bytes of \<open>src\<close>, then
  zero bytes when \<open>src\<close> is shorter than \<open>n\<close>.
\<close>

definition strncpy :: "string \<Rightarrow> string \<Rightarrow> nat \<Rightarrow> string" where
  "strncpy dest src n = take n (src @ replicate (n - length src) (CHR 0x00)) @ drop n dest"

definition srcString :: string where
  "srcString = ''0123456789abcdefghijklmnopqrstuvwxyxABCDEFGHIJKLMNOPQRSTUVWXYZ''"

text \<open>
  \<open>rnd\<close> is the value \<open>rand()\<close> returned, a number from 0 to \<open>RAND_MAX\<close>; \<open>buffer\<close> is the
  contents of the caller's buffer. The result is the new contents and the returned length.
\<close>

definition get_external_data :: "nat \<Rightarrow> string \<Rightarrow> int \<Rightarrow> (string \<times> int) outcome" where
  "get_external_data rnd buffer bufferSizeInBytes =
     (if bufferSizeInBytes = 0 then Faults
      else
        let val = c_rem (int rnd) bufferSizeInBytes in
        if bufferSizeInBytes < val then Returns (buffer, - 1)
        else if length buffer < nat val then Faults
        else Returns (strncpy buffer srcString (nat val), val))"

text \<open>The packet \<open>writer_thread\<close> builds around buffer \<open>b\<close> and the length it got.\<close>

definition writer_packet :: "addr \<Rightarrow> int \<Rightarrow> DataPacket" where
  "writer_packet b len = \<lparr>data = Some b, size_p = len, eventId = 0, eventCorrelationId = 0\<rparr>"

text \<open>
  One pass through the body of \<open>while (1)\<close> in \<open>writer_thread\<close>. \<open>buf\<close> is what
  \<open>malloc(1024)\<close> returned: \<open>None\<close>, or the address of the block with the bytes it happens to
  hold; \<open>newNode\<close> is what \<open>malloc\<close> returns inside \<open>enqueue\<close>, if that is called.
\<close>

definition writer_iteration ::
  "tid \<Rightarrow> (addr \<times> string) option \<Rightarrow> nat \<Rightarrow> addr option \<Rightarrow> state \<Rightarrow> state outcome" where
  "writer_iteration t buf rnd newNode s =
     (case buf of
        None \<Rightarrow> Returns (log_message ''Error: Memory allocation failed for data packet.'' s)
      | Some (b, bytes) \<Rightarrow>
          let s1 = s\<lparr>bufs := (bufs s)(b \<mapsto> bytes)\<rparr> in
          (case get_external_data rnd bytes 1024 of
             Blocks s' \<Rightarrow> Blocks s'
           | Faults \<Rightarrow> Faults
           | Returns (buffer, len) \<Rightarrow>
               let s2 = s1\<lparr>bufs := (bufs s1)(b \<mapsto> buffer)\<rparr>;
                   pkt = writer_packet b len
               in if 0 < size_p pkt then enqueue t newNode pkt s2
                  else Returns (s2\<lparr>bufs := (bufs s2)(b := None)\<rparr>)))"

text \<open>
  The loop never ends by itself; \<open>writer_thread\<close> runs its first passes, one for each
  element of the list of what the two \<open>malloc\<close> calls and \<open>rand\<close> return.
\<close>

fun writer_thread ::
  "tid \<Rightarrow> ((addr \<times> string) option \<times> nat \<times> addr option) list \<Rightarrow> state \<Rightarrow> state outcome" where
  "writer_thread t [] s = Returns s"
| "writer_thread t ((buf, rnd, newNode) # ins) s =
     (case writer_iteration t buf rnd newNode s of
        Blocks s' \<Rightarrow> Blocks s'
      | Faults \<Rightarrow> Faults
      | Returns s' \<Rightarrow> writer_thread t ins s')"

subsection \<open>Sequences of calls\<close>

text \<open>
  A call of \<open>enqueue\<close> comes with the thread that makes it, the result of its \<open>malloc\<close> and
  its packet; a call of \<open>dequeue\<close> with its thread. \<open>run\<close> performs the calls one after the
  other and collects the packets the \<open>dequeue\<close> calls return.
\<close>

datatype call = Enqueue tid "addr option" DataPacket | Dequeue tid

fun run :: "call list \<Rightarrow> state \<Rightarrow> (state \<times> DataPacket list) outcome" where
  "run [] s = Returns (s, [])"
| "run (Enqueue t newNode dat # cs) s =
     (case enqueue t newNode dat s of
        Blocks s' \<Rightarrow> Blocks s'
      | Faults \<Rightarrow> Faults
      | Returns s' \<Rightarrow> run cs s')"
| "run (Dequeue t # cs) s =
     (case dequeue t s of
        Blocks s' \<Rightarrow> Blocks s'
      | Faults \<Rightarrow> Faults
      | Returns (s', x) \<Rightarrow>
          (case run cs s' of
             Blocks s'' \<Rightarrow> Blocks s''
           | Faults \<Rightarrow> Faults
           | Returns (s'', xs) \<Rightarrow> Returns (s'', x # xs)))"

text \<open>
  \<open>malloc\<close> never returns a block that is still allocated: \<open>mallocs_fresh cs s\<close> says so
  for the node addresses of the calls \<open>cs\<close> performed from \<open>s\<close>.
\<close>

fun mallocs_fresh :: "call list \<Rightarrow> state \<Rightarrow> bool" where
  "mallocs_fresh [] s = True"
| "mallocs_fresh (Enqueue t newNode dat # cs) s =
     ((case newNode of None \<Rightarrow> True | Some n \<Rightarrow> nodes s n = None) \<and>
      (case enqueue t newNode dat s of Returns s' \<Rightarrow> mallocs_fresh cs s' | _ \<Rightarrow> True))"
| "mallocs_fresh (Dequeue t # cs) s =
     (case dequeue t s of Returns (s', x) \<Rightarrow> mallocs_fresh cs s' | _ \<Rightarrow> True)"

text \<open>
  The packets passed to \<open>enqueue\<close>, and those among them whose call got a node from
  \<open>malloc\<close>.
\<close>

fun passed :: "call list \<Rightarrow> DataPacket list" where
  "passed [] = []"
| "passed (Enqueue t newNode dat # cs) = dat # passed cs"
| "passed (Dequeue t # cs) = passed cs"

fun delivered :: "call list \<Rightarrow> DataPacket list" where
  "delivered [] = []"
| "delivered (Enqueue t newNode dat # cs) =
     (case newNode of None \<Rightarrow> delivered cs | Some n \<Rightarrow> dat # delivered cs)"
| "delivered (Dequeue t # cs) = delivered cs"

fun is_enqueue :: "call \<Rightarrow> bool" where
  "is_enqueue (Enqueue t newNode dat) = True"
| "is_enqueue (Dequeue t) = False"

fun malloc_succeeds :: "call \<Rightarrow> bool" where
  "malloc_succeeds (Enqueue t newNode dat) = (newNode \<noteq> None)"
| "malloc_succeeds (Dequeue t) = True"

subsection \<open>The linked list in the heap\<close>

text \<open>
  \<open>chain h p axs\<close>: following \<open>next\<close> from pointer \<open>p\<close> in heap \<open>h\<close> visits exactly the nodes
  at the addresses of \<open>axs\<close>, holding the packets of \<open>axs\<close>, and ends in \<open>NULL\<close>.
\<close>

fun chain :: "(addr \<rightharpoonup> Node) \<Rightarrow> addr option \<Rightarrow> (addr \<times> DataPacket) list \<Rightarrow> bool" where
  "chain h p [] = (p = None)"
| "chain h p (ax # axs) =
     (p = Some (fst ax) \<and>
      (case h (fst ax) of
         None \<Rightarrow> False
       | Some nd \<Rightarrow> packet nd = snd ax \<and> chain h (next_n nd) axs))"

text \<open>
  \<open>walk\<close> reads the packets off the list; it has no value when the list runs into an
  unallocated node or into a cycle. \<open>stored s\<close> is the content of the queue of state \<open>s\<close>.
\<close>

partial_function (option) walk :: "(addr \<rightharpoonup> Node) \<Rightarrow> addr option \<Rightarrow> DataPacket list option" where
  "walk h p =
     (case p of
        None \<Rightarrow> Some []
      | Some a \<Rightarrow>
          (case h a of
             None \<Rightarrow> None
           | Some nd \<Rightarrow> Option.bind (walk h (next_n nd)) (\<lambda>xs. Some (packet nd # xs))))"

definition stored :: "state \<Rightarrow> DataPacket list option" where
  "stored s = walk (nodes s) (head s)"

text \<open>
  The list and the count agree: the list from \<open>head\<close> is \<open>axs\<close>, \<open>tail\<close> points to its last
  node and \<open>count\<close> is its length.
\<close>

definition list_inv :: "state \<Rightarrow> (addr \<times> DataPacket) list \<Rightarrow> bool" where
  "list_inv s axs \<longleftrightarrow>
     chain (nodes s) (head s) axs \<and>
     tail s = (if axs = [] then None else Some (fst (last axs))) \<and>
     count_q s = int (length axs)"

text \<open>
  Between calls, for a queue of capacity \<open>C\<close>: the semaphores count the items and the free
  slots, and the mutex is free.
\<close>

definition queue_inv :: "nat \<Rightarrow> state \<Rightarrow> (addr \<times> DataPacket) list \<Rightarrow> bool" where
  "queue_inv C s axs \<longleftrightarrow>
     list_inv s axs \<and> full s = length axs \<and> empty_q s + length axs = C \<and> lock s = None"

text \<open>What the count invariant says of one state.\<close>

definition count_consistent :: "nat \<Rightarrow> state \<Rightarrow> bool" where
  "count_consistent C s \<longleftrightarrow>
     0 \<le> count_q s \<and> count_q s \<le> int C \<and>
     (case stored s of None \<Rightarrow> False | Some xs \<Rightarrow> count_q s = int (length xs))"

text \<open>
  The state in which \<open>main\<close> starts: the global queue is all zero, nothing is allocated,
  the log is empty.
\<close>

definition program_start :: state where
  "program_start =
     \<lparr>head = None, tail = None, count_q = 0, full = 0, empty_q = 0, lock = None,
      nodes = Map.empty, bufs = Map.empty, logfile = []\<rparr>"

text \<open>
  A state in which the semaphore \<open>full\<close> announces an item that the list does not hold.
\<close>

definition desync_example :: state where
  "desync_example =
     \<lparr>head = None, tail = None, count_q = 0, full = 1, empty_q = 2, lock = None,
      nodes = Map.empty, bufs = Map.empty, logfile = []\<rparr>"


subsection \<open>Threads, statement by statement\<close>

text \<open>
  Where a thread stands in \<open>enqueue\<close> or \<open>dequeue\<close>, named after the statement it executes
  next, with the local variables that statement uses (\<open>newNode\<close>, \<open>temp\<close>, \<open>data\<close>).
  \<open>Idle\<close> is a thread outside both functions. The two critical sections, lines 127 to 133
  and lines 156 to 170, are one statement each: they run with the mutex held.
\<close>

datatype thread =
    Idle
  | Enq_log_fail
  | Enq_sem_wait addr
  | Enq_lock addr
  | Enq_link addr
  | Enq_unlock
  | Enq_sem_post
  | Enq_log
  | Deq_sem_wait
  | Deq_lock
  | Deq_test
  | Deq_err_unlock
  | Deq_err_log
  | Deq_err_sem_post
  | Deq_unlock addr DataPacket
  | Deq_sem_post addr DataPacket
  | Deq_free addr DataPacket
  | Deq_log DataPacket

text \<open>What a statement does to the semaphores and the mutex.\<close>

datatype sem_name = Sem_full | Sem_empty

datatype label = Sem_wait sem_name | Mutex_lock | Mutex_unlock | Sem_post sem_name | Other

text \<open>
  Entering \<open>enqueue\<close>, lines 114 to 122: the result of \<open>malloc\<close> is tested and the node is
  filled in.
\<close>

definition enqueue_entry :: "addr option \<Rightarrow> DataPacket \<Rightarrow> state \<Rightarrow> thread \<times> state" where
  "enqueue_entry newNode dat s =
     (case newNode of
        None \<Rightarrow> (Enq_log_fail, s)
      | Some n \<Rightarrow>
          (Enq_sem_wait n, s\<lparr>nodes := (nodes s)(n \<mapsto> \<lparr>packet = dat, next_n = None\<rparr>)\<rparr>))"

text \<open>
  One statement of thread \<open>t\<close>: its label, where the thread stands afterwards and the new
  state. There is no step when the thread is idle, when \<open>sem_wait\<close> or
  \<open>pthread_mutex_lock\<close> cannot pass, and when a critical section follows a pointer to a
  node that is not allocated.
\<close>

fun stmt :: "tid \<Rightarrow> thread \<Rightarrow> state \<Rightarrow> (label \<times> thread \<times> state) option" where
  "stmt t Idle s = None"
| "stmt t Enq_log_fail s =
     Some (Other, Idle, log_message ''Error: Memory allocation failed for new node.'' s)"
| "stmt t (Enq_sem_wait n) s =
     (case sem_wait (empty_q s) of
        None \<Rightarrow> None
      | Some e \<Rightarrow> Some (Sem_wait Sem_empty, Enq_lock n, s\<lparr>empty_q := e\<rparr>))"
| "stmt t (Enq_lock n) s =
     (case pthread_mutex_lock t (lock s) of
        None \<Rightarrow> None
      | Some l \<Rightarrow> Some (Mutex_lock, Enq_link n, s\<lparr>lock := l\<rparr>))"
| "stmt t (Enq_link n) s =
     (case enqueue_link n s of
        None \<Rightarrow> None
      | Some s' \<Rightarrow> Some (Other, Enq_unlock, s'))"
| "stmt t Enq_unlock s =
     Some (Mutex_unlock, Enq_sem_post, s\<lparr>lock := pthread_mutex_unlock (lock s)\<rparr>)"
| "stmt t Enq_sem_post s = Some (Sem_post Sem_full, Enq_log, s\<lparr>full := sem_post (full s)\<rparr>)"
| "stmt t Enq_log s = Some (Other, Idle, log_message ''Data enqueued.'' s)"
| "stmt t Deq_sem_wait s =
     (case sem_wait (full s) of
        None \<Rightarrow> None
      | Some f \<Rightarrow> Some (Sem_wait Sem_full, Deq_lock, s\<lparr>full := f\<rparr>))"
| "stmt t Deq_lock s =
     (case pthread_mutex_lock t (lock s) of
        None \<Rightarrow> None
      | Some l \<Rightarrow> Some (Mutex_lock, Deq_test, s\<lparr>lock := l\<rparr>))"
| "stmt t Deq_test s =
     (case head s of
        None \<Rightarrow> Some (Other, Deq_err_unlock, s)
      | Some temp \<Rightarrow>
          (case dequeue_unlink temp s of
             None \<Rightarrow> None
           | Some (s', dat) \<Rightarrow> Some (Other, Deq_unlock temp dat, s')))"
| "stmt t Deq_err_unlock s =
     Some (Mutex_unlock, Deq_err_log, s\<lparr>lock := pthread_mutex_unlock (lock s)\<rparr>)"
| "stmt t Deq_err_log s =
     Some (Other, Deq_err_sem_post,
           log_message ''Error: Tried to dequeue from an empty queue.'' s)"
| "stmt t Deq_err_sem_post s =
     Some (Sem_post Sem_empty, Idle, s\<lparr>empty_q := sem_post (empty_q s)\<rparr>)"
| "stmt t (Deq_unlock temp dat) s =
     Some (Mutex_unlock, Deq_sem_post temp dat, s\<lparr>lock := pthread_mutex_unlock (lock s)\<rparr>)"
| "stmt t (Deq_sem_post temp dat) s =
     Some (Sem_post Sem_empty, Deq_free temp dat, s\<lparr>empty_q := sem_post (empty_q s)\<rparr>)"
| "stmt t (Deq_free temp dat) s =
     Some (Other, Deq_log dat, s\<lparr>nodes := (nodes s)(temp := None)\<rparr>)"
| "stmt t (Deq_log dat) s = Some (Other, Idle, log_message ''Data dequeued.'' s)"

text \<open>
  The threads share one state. A move of the system is one thread entering \<open>enqueue\<close>
  (with a node that \<open>malloc\<close> may return: \<open>NULL\<close> or a block not in use), one thread
  entering \<open>dequeue\<close>, or one thread executing its next statement; \<open>move\<close> is \<open>None\<close>
  when the move is not possible. \<open>moves\<close> makes the moves of a list in order, any
  interleaving of the threads, and records which thread did what.
\<close>

record system =
  shared :: state
  threads :: "tid \<Rightarrow> thread"

datatype action = Call_enqueue tid "addr option" DataPacket | Call_dequeue tid | Step tid

fun move :: "action \<Rightarrow> system \<Rightarrow> (tid \<times> label \<times> system) option" where
  "move (Call_enqueue t newNode dat) \<sigma> =
     (if threads \<sigma> t = Idle \<and> (case newNode of None \<Rightarrow> True | Some n \<Rightarrow> nodes (shared \<sigma>) n = None)
      then
        (case enqueue_entry newNode dat (shared \<sigma>) of
           (th, s') \<Rightarrow> Some (t, Other, \<lparr>shared = s', threads = (threads \<sigma>)(t := th)\<rparr>))
      else None)"
| "move (Call_dequeue t) \<sigma> =
     (if threads \<sigma> t = Idle
      then Some (t, Other, \<lparr>shared = shared \<sigma>, threads = (threads \<sigma>)(t := Deq_sem_wait)\<rparr>)
      else None)"
| "move (Step t) \<sigma> =
     (case stmt t (threads \<sigma> t) (shared \<sigma>) of
        None \<Rightarrow> None
      | Some (l, th, s') \<Rightarrow> Some (t, l, \<lparr>shared = s', threads = (threads \<sigma>)(t := th)\<rparr>))"

fun moves :: "action list \<Rightarrow> system \<Rightarrow> ((tid \<times> label) list \<times> system) option" where
  "moves [] \<sigma> = Some ([], \<sigma>)"
| "moves (m # ms) \<sigma> =
     (case move m \<sigma> of
        None \<Rightarrow> None
      | Some (t, l, \<sigma>') \<Rightarrow>
          (case moves ms \<sigma>' of
             None \<Rightarrow> None
           | Some (tr, \<sigma>'') \<Rightarrow> Some ((t, l) # tr, \<sigma>'')))"

text \<open>The system after \<open>initializeQueue\<close> with capacity \<open>C\<close>, before any thread has started.\<close>

definition boot :: "nat \<Rightarrow> state \<Rightarrow> system" where
  "boot C s0 = \<lparr>shared = initializeQueue C s0, threads = (\<lambda>t. Idle)\<rparr>"

text \<open>
  The order the queue prescribes for one thread: outside; then past \<open>sem_wait\<close> on one
  semaphore; then holding the mutex; then past the unlock; then, by \<open>sem_post\<close> on the
  other semaphore, outside again. \<open>phase_step\<close> is \<open>None\<close> for an operation out of this
  order, \<open>follow\<close> runs through the operations of one thread, \<open>phase_of\<close> is the phase of a
  thread by the statement it stands at.
\<close>

datatype phase = Outside | Acquired sem_name | Holding sem_name | Released sem_name

fun phase_step :: "phase \<Rightarrow> label \<Rightarrow> phase option" where
  "phase_step p Other = Some p"
| "phase_step Outside (Sem_wait x) = Some (Acquired x)"
| "phase_step (Acquired x) Mutex_lock = Some (Holding x)"
| "phase_step (Holding x) Mutex_unlock = Some (Released x)"
| "phase_step (Released x) (Sem_post y) = (if x \<noteq> y then Some Outside else None)"
| "phase_step p l = None"

fun follow :: "phase \<Rightarrow> label list \<Rightarrow> phase option" where
  "follow p [] = Some p"
| "follow p (l # ls) = (case phase_step p l of None \<Rightarrow> None | Some p' \<Rightarrow> follow p' ls)"

fun phase_of :: "thread \<Rightarrow> phase" where
  "phase_of (Enq_lock n) = Acquired Sem_empty"
| "phase_of (Enq_link n) = Holding Sem_empty"
| "phase_of Enq_unlock = Holding Sem_empty"
| "phase_of Enq_sem_post = Released Sem_empty"
| "phase_of Deq_lock = Acquired Sem_full"
| "phase_of Deq_test = Holding Sem_full"
| "phase_of Deq_err_unlock = Holding Sem_full"
| "phase_of Deq_err_log = Released Sem_full"
| "phase_of Deq_err_sem_post = Released Sem_full"
| "phase_of (Deq_unlock temp dat) = Holding Sem_full"
| "phase_of (Deq_sem_post temp dat) = Released Sem_full"
| "phase_of th = Outside"

fun is_holding :: "phase \<Rightarrow> bool" where
  "is_holding (Holding x) = True"
| "is_holding p = False"

text \<open>The statements that call \<open>sem_wait\<close> and \<open>sem_post\<close>.\<close>

fun at_sem_wait :: "thread \<Rightarrow> bool" where
  "at_sem_wait (Enq_sem_wait n) = True"
| "at_sem_wait Deq_sem_wait = True"
| "at_sem_wait th = False"

fun at_sem_post :: "thread \<Rightarrow> bool" where
  "at_sem_post Enq_sem_post = True"
| "at_sem_post Deq_err_sem_post = True"
| "at_sem_post (Deq_sem_post temp dat) = True"
| "at_sem_post th = False"

text \<open>The operations of thread \<open>t\<close> in a record of moves.\<close>

definition labels_of :: "tid \<Rightarrow> (tid \<times> label) list \<Rightarrow> label list" where
  "labels_of t tr = map snd (filter (\<lambda>e. fst e = t) tr)"


text \<open>The mutex is held by exactly the threads in a holding phase.\<close>

definition mutex_inv :: "system \<Rightarrow> bool" where
  "mutex_inv \<sigma> \<longleftrightarrow> (\<forall>t. lock (shared \<sigma>) = Some t \<longleftrightarrow> is_holding (phase_of (threads \<sigma> t)))"

text \<open>
  A thread alone: \<open>solo k\<close> executes up to \<open>k\<close> statements of thread \<open>t\<close>, as far as
  there is a step.
\<close>

fun solo :: "nat \<Rightarrow> tid \<Rightarrow> thread \<Rightarrow> state \<Rightarrow> thread \<times> state" where
  "solo 0 t th s = (th, s)"
| "solo (Suc k) t th s =
     (case stmt t th s of
        None \<Rightarrow> (th, s)
      | Some (l, th', s') \<Rightarrow> solo k t th' s')"

text \<open>
  For the invariant of the threads. \<open>owned\<close> is the node a thread holds on its own: the
  node it allocated and has not yet linked in, or the node it unlinked and has not yet
  freed; \<open>unlinked\<close> says that it is of the first kind. \<open>items_pending\<close> is 1 for a thread
  that stands between linking a node and \<open>sem_post\<close> on \<open>full\<close>, or between \<open>sem_wait\<close>
  on \<open>full\<close> and unlinking a node: an item in the list that \<open>full\<close> does not count.
  \<open>slots_pending\<close> is 1 for a thread between \<open>sem_wait\<close> on \<open>empty\<close> and linking, or between
  unlinking and \<open>sem_post\<close> on \<open>empty\<close>: a free slot that \<open>empty\<close> does not count.
  \<open>pending w f\<close> adds \<open>w\<close> up over the threads that are not idle.
\<close>

fun owned :: "thread \<Rightarrow> addr option" where
  "owned (Enq_sem_wait n) = Some n"
| "owned (Enq_lock n) = Some n"
| "owned (Enq_link n) = Some n"
| "owned (Deq_unlock temp dat) = Some temp"
| "owned (Deq_sem_post temp dat) = Some temp"
| "owned (Deq_free temp dat) = Some temp"
| "owned th = None"

fun unlinked :: "thread \<Rightarrow> bool" where
  "unlinked (Enq_sem_wait n) = True"
| "unlinked (Enq_lock n) = True"
| "unlinked (Enq_link n) = True"
| "unlinked th = False"

fun items_pending :: "thread \<Rightarrow> int" where
  "items_pending Enq_unlock = 1"
| "items_pending Enq_sem_post = 1"
| "items_pending Deq_lock = 1"
| "items_pending Deq_test = 1"
| "items_pending th = 0"

fun slots_pending :: "thread \<Rightarrow> int" where
  "slots_pending (Enq_lock n) = 1"
| "slots_pending (Enq_link n) = 1"
| "slots_pending (Deq_unlock temp dat) = 1"
| "slots_pending (Deq_sem_post temp dat) = 1"
| "slots_pending th = 0"

fun in_error_branch :: "thread \<Rightarrow> bool" where
  "in_error_branch Deq_err_unlock = True"
| "in_error_branch Deq_err_log = True"
| "in_error_branch Deq_err_sem_post = True"
| "in_error_branch th = False"

definition pending :: "(thread \<Rightarrow> int) \<Rightarrow> (tid \<Rightarrow> thread) \<Rightarrow> int" where
  "pending w f = (\<Sum>t | f t \<noteq> Idle. w (f t))"

text \<open>
  The invariant of the threads, for capacity \<open>C\<close> and list \<open>axs\<close>. \<open>own_inv\<close>: a node a
  thread owns is not in the list, is owned by no other thread and is allocated, and a node
  not yet linked in has \<open>next = NULL\<close>. \<open>system_inv\<close>: the list and the count agree;
  finitely many threads are inside a call; \<open>full\<close> and the pending items make up the
  count; \<open>empty\<close>, the count and the pending slots make up the capacity; no thread is in
  the branch of \<open>dequeue\<close> for the empty list; the nodes are owned as \<open>own_inv\<close> says.
\<close>

definition own_inv :: "state \<Rightarrow> (tid \<Rightarrow> thread) \<Rightarrow> (addr \<times> DataPacket) list \<Rightarrow> bool" where
  "own_inv s f axs \<longleftrightarrow>
     (\<forall>t n. owned (f t) = Some n \<longrightarrow>
        n \<notin> fst ` set axs \<and>
        (\<forall>t'. t' \<noteq> t \<longrightarrow> owned (f t') \<noteq> Some n) \<and>
        (\<exists>nd. nodes s n = Some nd \<and> (unlinked (f t) \<longrightarrow> next_n nd = None)))"

definition system_inv :: "nat \<Rightarrow> system \<Rightarrow> (addr \<times> DataPacket) list \<Rightarrow> bool" where
  "system_inv C \<sigma> axs \<longleftrightarrow>
     list_inv (shared \<sigma>) axs \<and>
     finite {t. threads \<sigma> t \<noteq> Idle} \<and>
     count_q (shared \<sigma>) = int (full (shared \<sigma>)) + pending items_pending (threads \<sigma>) \<and>
     int C = int (empty_q (shared \<sigma>)) + count_q (shared \<sigma>) + pending slots_pending (threads \<sigma>) \<and>
     (\<forall>t. \<not> in_error_branch (threads \<sigma> t)) \<and>
     own_inv (shared \<sigma>) (threads \<sigma>) axs"

section \<open>Properties of the linked list\<close>

lemma walk_chain: "chain h p axs \<Longrightarrow> walk h p = Some (map snd axs)"
proof (induction axs arbitrary: p)
  case Nil
  then show ?case by (subst walk.simps) simp
next
  case (Cons ax axs)
  then show ?case by (subst walk.simps) (auto split: option.splits)
qed

lemma chain_unique: "chain h p axs \<Longrightarrow> chain h p bxs \<Longrightarrow> axs = bxs"
proof (induction axs arbitrary: p bxs)
  case Nil
  then show ?case by (cases bxs) auto
next
  case (Cons ax axs)
  then show ?case by (cases bxs) (auto split: option.splits simp: prod_eq_iff)
qed

lemma chain_dom: "chain h p axs \<Longrightarrow> fst ` set axs \<subseteq> dom h"
  by (induction axs arbitrary: p) (auto split: option.splits)

lemma chain_suffix_at:
  "chain h p (axs @ bx # bxs) \<Longrightarrow> chain h (Some (fst bx)) (bx # bxs)"
proof (induction axs arbitrary: p)
  case Nil
  then show ?case by simp
next
  case (Cons ax axs)
  from Cons.prems have "\<exists>nd::Node. chain h (next_n nd) (axs @ bx # bxs)"
    by (auto split: option.splits)
  then obtain nd :: Node where "chain h (next_n nd) (axs @ bx # bxs)" ..
  then show ?case by (rule Cons.IH)
qed

text \<open>A list that ends in \<open>NULL\<close> visits no node twice.\<close>

lemma chain_head_notin:
  assumes "chain h (Some a) ((a, x) # axs)"
  shows "a \<notin> fst ` set axs"
proof
  assume "a \<in> fst ` set axs"
  then obtain y where "(a, y) \<in> set axs" by auto
  then obtain bs cs where axs: "axs = bs @ (a, y) # cs" by (auto simp: in_set_conv_decomp)
  from assms have "chain h (Some a) (((a, x) # bs) @ (a, y) # cs)" by (simp add: axs)
  from chain_suffix_at[OF this] have "chain h (Some a) ((a, y) # cs)" by simp
  from chain_unique[OF this assms] show False by (simp add: axs)
qed

lemma chain_distinct: "chain h p axs \<Longrightarrow> distinct (map fst axs)"
proof (induction axs arbitrary: p)
  case Nil
  then show ?case by simp
next
  case (Cons ax axs)
  obtain a x where ax: "ax = (a, x)" by (cases ax)
  from Cons.prems have c: "chain h (Some a) ((a, x) # axs)" by (simp add: ax)
  have "a \<notin> fst ` set axs" by (rule chain_head_notin[OF c])
  moreover from Cons.prems Cons.IH have "distinct (map fst axs)" by (auto split: option.splits)
  ultimately show ?case by (simp add: ax)
qed

lemma chain_upd_notin:
  "a \<notin> fst ` set axs \<Longrightarrow> chain (h(a := v)) p axs = chain h p axs"
  by (induction axs arbitrary: p) (auto split: option.splits)

text \<open>Hanging a fresh node behind the last node extends the list at its end.\<close>

lemma chain_snoc:
  assumes "chain h p axs" "axs \<noteq> []" "h n = None" "h (fst (last axs)) = Some tn"
  shows "chain (h(n \<mapsto> \<lparr>packet = x, next_n = None\<rparr>,
                  fst (last axs) \<mapsto> tn\<lparr>next_n := Some n\<rparr>)) p (axs @ [(n, x)])"
  using assms
proof (induction axs arbitrary: p)
  case Nil
  then show ?case by simp
next
  case (Cons ax axs)
  show ?case
  proof (cases "axs = []")
    case True
    with Cons.prems show ?thesis by (auto split: option.splits)
  next
    case False
    have d: "distinct (map fst (ax # axs))" by (rule chain_distinct[OF Cons.prems(1)])
    with False have ne: "fst ax \<noteq> fst (last axs)" by (auto simp: image_iff)
    from Cons.prems have ne2: "fst ax \<noteq> n" by (auto split: option.splits)
    from Cons.prems False obtain nd where nd: "h (fst ax) = Some nd" "packet nd = snd ax"
      "chain h (next_n nd) axs" "p = Some (fst ax)"
      by (auto split: option.splits)
    have l: "h (fst (last axs)) = Some tn" using Cons.prems(4) False by simp
    define H where "H = h(n \<mapsto> \<lparr>packet = x, next_n = None\<rparr>,
      fst (last axs) \<mapsto> tn\<lparr>next_n := Some n\<rparr>)"
    have IH': "chain H (next_n nd) (axs @ [(n, x)])"
      unfolding H_def by (rule Cons.IH[OF nd(3) False Cons.prems(3) l])
    have Hax: "H (fst ax) = Some nd" using ne ne2 nd(1) by (simp add: H_def)
    have c: "chain H p (ax # (axs @ [(n, x)]))" using Hax IH' nd by simp
    have la: "last (ax # axs) = last axs" using False by simp
    show ?thesis unfolding la append_Cons using c unfolding H_def .
  qed
qed

lemma stored_list_inv: "list_inv s axs \<Longrightarrow> stored s = Some (map snd axs)"
  by (simp add: list_inv_def stored_def walk_chain)

lemma list_inv_frame:
  "list_inv s axs \<Longrightarrow> nodes s' = nodes s \<Longrightarrow> head s' = head s \<Longrightarrow> tail s' = tail s \<Longrightarrow>
   count_q s' = count_q s \<Longrightarrow> list_inv s' axs"
  by (simp add: list_inv_def)

section \<open>The two critical sections\<close>

lemma enqueue_link_ok:
  assumes "list_inv s axs" "nodes s n = Some \<lparr>packet = x, next_n = None\<rparr>" "n \<notin> fst ` set axs"
  shows "\<exists>s'. enqueue_link n s = Some s' \<and> list_inv s' (axs @ [(n, x)]) \<and>
     full s' = full s \<and> empty_q s' = empty_q s \<and> lock s' = lock s \<and> bufs s' = bufs s \<and>
     logfile s' = logfile s \<and> dom (nodes s') = dom (nodes s) \<and>
     (\<forall>a. a \<notin> fst ` set axs \<longrightarrow> nodes s' a = nodes s a)"
proof (cases "axs = []")
  case True
  with assms show ?thesis
    by (simp add: enqueue_link_def list_inv_def)
next
  case False
  from assms(1) have c: "chain (nodes s) (head s) axs" and t: "tail s = Some (fst (last axs))"
    and cnt: "count_q s = int (length axs)"
    using False by (simp_all add: list_inv_def)
  from chain_dom[OF c] False obtain tn where tn: "nodes s (fst (last axs)) = Some tn"
    by (metis domD image_subset_iff last_in_set)
  define h0 where "h0 = (nodes s)(n := None)"
  have h0: "nodes s = h0(n \<mapsto> \<lparr>packet = x, next_n = None\<rparr>)"
    using assms(2) by (auto simp: h0_def)
  have c0: "chain h0 (head s) axs" using c assms(3) by (simp add: h0_def chain_upd_notin)
  have ln: "fst (last axs) \<noteq> n" using assms(3) False by (metis image_eqI last_in_set)
  have tn0: "h0 (fst (last axs)) = Some tn" using tn ln by (simp add: h0_def)
  have "chain (h0(n \<mapsto> \<lparr>packet = x, next_n = None\<rparr>,
                  fst (last axs) \<mapsto> tn\<lparr>next_n := Some n\<rparr>)) (head s) (axs @ [(n, x)])"
    by (rule chain_snoc[OF c0 False _ tn0]) (simp add: h0_def)
  then have c': "chain ((nodes s)(fst (last axs) \<mapsto> tn\<lparr>next_n := Some n\<rparr>)) (head s)
      (axs @ [(n, x)])"
    by (simp add: h0)
  have d: "dom ((nodes s)(fst (last axs) \<mapsto> tn\<lparr>next_n := Some n\<rparr>)) = dom (nodes s)"
    using tn by auto
  have la: "fst (last axs) \<in> fst ` set axs" using False by simp
  show ?thesis using c' t cnt tn d la
    by (auto simp: enqueue_link_def list_inv_def)
qed

lemma dequeue_unlink_ok:
  assumes "list_inv s ((a, x) # axs)"
  shows "\<exists>s'. dequeue_unlink a s = Some (s', x) \<and> head s = Some a \<and>
     list_inv (s'\<lparr>nodes := (nodes s')(a := None)\<rparr>) axs \<and>
     full s' = full s \<and> empty_q s' = empty_q s \<and> lock s' = lock s \<and> bufs s' = bufs s \<and>
     logfile s' = logfile s \<and> nodes s' = nodes s \<and> list_inv s' axs \<and> a \<notin> fst ` set axs"
proof -
  from assms obtain nd where nd: "nodes s a = Some nd" "packet nd = x"
    "chain (nodes s) (next_n nd) axs" and hd: "head s = Some a"
    by (auto simp: list_inv_def split: option.splits)
  from assms have "chain (nodes s) (Some a) ((a, x) # axs)" by (simp add: list_inv_def)
  then have nin: "a \<notin> fst ` set axs" by (rule chain_head_notin)
  then have c': "chain ((nodes s)(a := None)) (next_n nd) axs"
    using nd(3) by (simp add: chain_upd_notin)
  have e: "next_n nd = None \<longleftrightarrow> axs = []" using nd(3) by (cases axs) auto
  from assms have t: "axs \<noteq> [] \<Longrightarrow> tail s = Some (fst (last axs))"
    and cnt: "count_q s = 1 + int (length axs)"
    by (simp_all add: list_inv_def)
  show ?thesis using nd hd c' e t cnt nin
    by (auto simp: dequeue_unlink_def list_inv_def Let_def)
qed

section \<open>One call\<close>

lemmas call_defs = enqueue_def dequeue_def enqueue_link_def dequeue_unlink_def
  initializeQueue_def log_message_def sem_wait_def sem_post_def pthread_mutex_lock_def
  pthread_mutex_unlock_def program_start_def zero_packet_def Let_def

lemma enqueue_alloc_fail:
  "enqueue t None x s = Returns (log_message ''Error: Memory allocation failed for new node.'' s)"
  by (simp add: enqueue_def)

lemma enqueue_blocks:
  "empty_q s = 0 \<Longrightarrow>
   enqueue t (Some n) x s = Blocks (s\<lparr>nodes := (nodes s)(n \<mapsto> \<lparr>packet = x, next_n = None\<rparr>)\<rparr>)"
  by (simp add: enqueue_def sem_wait_def)

lemma enqueue_ok:
  assumes inv: "list_inv s axs" and fresh: "nodes s n = None" and e: "empty_q s = Suc e"
    and l: "lock s = None"
  shows "\<exists>s'. enqueue t (Some n) x s = Returns s' \<and> list_inv s' (axs @ [(n, x)]) \<and>
     full s' = full s + 1 \<and> empty_q s' = e \<and> lock s' = None \<and> bufs s' = bufs s \<and>
     logfile s' = logfile s @ [''Data enqueued.'']"
proof -
  define s2 where "s2 = s\<lparr>nodes := (nodes s)(n \<mapsto> \<lparr>packet = x, next_n = None\<rparr>),
     empty_q := e, lock := Some t\<rparr>"
  from inv have c: "chain (nodes s) (head s) axs" by (simp add: list_inv_def)
  from chain_dom[OF c] fresh have nin: "n \<notin> fst ` set axs" by auto
  have "list_inv s2 axs" using inv nin by (simp add: list_inv_def s2_def chain_upd_notin)
  moreover have "nodes s2 n = Some \<lparr>packet = x, next_n = None\<rparr>" by (simp add: s2_def)
  ultimately obtain s3 where s3: "enqueue_link n s2 = Some s3" "list_inv s3 (axs @ [(n, x)])"
     "full s3 = full s2" "empty_q s3 = empty_q s2" "lock s3 = lock s2" "bufs s3 = bufs s2"
     "logfile s3 = logfile s2"
    using enqueue_link_ok[OF _ _ nin, of s2 x] by blast
  have "enqueue t (Some n) x s =
     Returns (log_message ''Data enqueued.'' (s3\<lparr>lock := None, full := full s3 + 1\<rparr>))"
    using s3(1) e l
    by (simp add: enqueue_def sem_wait_def pthread_mutex_lock_def pthread_mutex_unlock_def
        sem_post_def s2_def Let_def)
  moreover have "list_inv (log_message ''Data enqueued.'' (s3\<lparr>lock := None, full := full s3 + 1\<rparr>))
      (axs @ [(n, x)])"
    by (rule list_inv_frame[OF s3(2)]) (simp_all add: log_message_def)
  ultimately show ?thesis using s3(3-7)
    by (simp add: log_message_def s2_def)
qed

lemma dequeue_blocks: "full s = 0 \<Longrightarrow> dequeue t s = Blocks s"
  by (simp add: dequeue_def sem_wait_def)

lemma dequeue_ok:
  assumes inv: "list_inv s ((a, x) # axs)" and f: "full s = Suc f" and l: "lock s = None"
  shows "\<exists>s'. dequeue t s = Returns (s', x) \<and> list_inv s' axs \<and>
     full s' = f \<and> empty_q s' = empty_q s + 1 \<and> lock s' = None \<and> bufs s' = bufs s \<and>
     logfile s' = logfile s @ [''Data dequeued.'']"
proof -
  define s2 where "s2 = s\<lparr>full := f, lock := Some t\<rparr>"
  have "list_inv s2 ((a, x) # axs)" by (rule list_inv_frame[OF inv]) (simp_all add: s2_def)
  from dequeue_unlink_ok[OF this] obtain s3 where s3: "dequeue_unlink a s2 = Some (s3, x)"
    "head s2 = Some a" "list_inv (s3\<lparr>nodes := (nodes s3)(a := None)\<rparr>) axs"
     "full s3 = full s2" "empty_q s3 = empty_q s2" "lock s3 = lock s2" "bufs s3 = bufs s2"
     "logfile s3 = logfile s2"
    by blast
  have "dequeue t s = Returns (log_message ''Data dequeued.''
      (s3\<lparr>lock := None, empty_q := empty_q s3 + 1, nodes := (nodes s3)(a := None)\<rparr>), x)"
    using s3(1,2) f l
    by (simp add: dequeue_def sem_wait_def pthread_mutex_lock_def pthread_mutex_unlock_def
        sem_post_def s2_def Let_def)
  moreover have "list_inv (log_message ''Data dequeued.''
      (s3\<lparr>lock := None, empty_q := empty_q s3 + 1, nodes := (nodes s3)(a := None)\<rparr>)) axs"
    by (rule list_inv_frame[OF s3(3)]) (simp_all add: log_message_def)
  ultimately show ?thesis using s3(4-8)
    by (simp add: log_message_def s2_def)
qed

text \<open>A call that returns was not blocked: the semaphore was positive and the mutex free.\<close>

lemma enqueue_Returns_pre:
  "enqueue t (Some n) x s = Returns s' \<Longrightarrow> empty_q s \<noteq> 0 \<and> lock s = None"
  by (auto simp: enqueue_def sem_wait_def pthread_mutex_lock_def Let_def
      split: if_splits option.splits)

lemma dequeue_Returns_pre:
  "dequeue t s = Returns r \<Longrightarrow> full s \<noteq> 0 \<and> lock s = None"
  by (auto simp: dequeue_def sem_wait_def pthread_mutex_lock_def Let_def
      split: if_splits option.splits)

section \<open>The invariant between calls\<close>

lemma queue_inv_init: "queue_inv C (initializeQueue C s0) []"
  by (simp add: queue_inv_def list_inv_def initializeQueue_def log_message_def)

lemma queue_inv_enqueue:
  assumes "queue_inv C s axs" "nodes s n = None" "enqueue t (Some n) x s = Returns s'"
  shows "queue_inv C s' (axs @ [(n, x)])"
proof (cases "empty_q s")
  case 0
  with assms(3) show ?thesis by (simp add: enqueue_blocks)
next
  case (Suc e)
  from assms(1) have "list_inv s axs" "lock s = None" by (simp_all add: queue_inv_def)
  from enqueue_ok[OF this(1) assms(2) Suc this(2), of t x] assms(1,3) Suc
  show ?thesis by (auto simp: queue_inv_def)
qed

lemma queue_inv_enqueue_fail:
  assumes "queue_inv C s axs" "enqueue t None x s = Returns s'"
  shows "queue_inv C s' axs"
  using assms by (auto simp: enqueue_alloc_fail queue_inv_def list_inv_def log_message_def)

lemma queue_inv_dequeue:
  assumes "queue_inv C s axs" "dequeue t s = Returns (s', x)"
  shows "\<exists>a axs'. axs = (a, x) # axs' \<and> queue_inv C s' axs'"
proof (cases axs)
  case Nil
  with assms show ?thesis by (simp add: queue_inv_def dequeue_blocks)
next
  case (Cons ax axs')
  obtain a y where ax: "ax = (a, y)" by (cases ax)
  from assms(1) have "list_inv s ((a, y) # axs')" "full s = Suc (length axs')" "lock s = None"
    by (simp_all add: queue_inv_def Cons ax)
  from dequeue_ok[OF this, of t] assms show ?thesis
    by (auto simp: queue_inv_def Cons ax)
qed

text \<open>
  The content of the queue before a sequence of calls, followed by the packets delivered
  by the calls, is the sequence of packets returned followed by the content afterwards.
\<close>

lemma run_inv:
  assumes "queue_inv C s axs" "mallocs_fresh cs s" "run cs s = Returns (s', out)"
  shows "\<exists>axs'. queue_inv C s' axs' \<and> map snd axs @ delivered cs = out @ map snd axs'"
  using assms
proof (induction cs arbitrary: s axs out)
  case Nil
  then show ?case by auto
next
  case (Cons c cs)
  show ?case
  proof (cases c)
    case (Enqueue t newNode dat)
    from Cons.prems(3) obtain s1 where s1: "enqueue t newNode dat s = Returns s1"
      "run cs s1 = Returns (s', out)"
      by (auto simp: Enqueue split: outcome.splits)
    from Cons.prems(2) s1 have fr: "mallocs_fresh cs s1" by (simp add: Enqueue)
    show ?thesis
    proof (cases newNode)
      case None
      from queue_inv_enqueue_fail[OF Cons.prems(1) s1(1)[unfolded None]]
      have "queue_inv C s1 axs" .
      from Cons.IH[OF this fr s1(2)] show ?thesis by (simp add: Enqueue None)
    next
      case (Some n)
      from Cons.prems(2) have "nodes s n = None" by (simp add: Enqueue Some)
      from queue_inv_enqueue[OF Cons.prems(1) this s1(1)[unfolded Some]]
      have "queue_inv C s1 (axs @ [(n, dat)])" .
      from Cons.IH[OF this fr s1(2)] show ?thesis by (simp add: Enqueue Some)
    qed
  next
    case (Dequeue t)
    from Cons.prems(3) obtain s1 x out1 where s1: "dequeue t s = Returns (s1, x)"
      "run cs s1 = Returns (s', out1)" "out = x # out1"
      by (auto simp: Dequeue split: outcome.splits)
    from Cons.prems(2) s1 have fr: "mallocs_fresh cs s1" by (simp add: Dequeue)
    from queue_inv_dequeue[OF Cons.prems(1) s1(1)] obtain a axs1 where
      a: "axs = (a, x) # axs1" "queue_inv C s1 axs1" by blast
    from Cons.IH[OF a(2) fr s1(2)] show ?thesis by (simp add: Dequeue a(1) s1(3))
  qed
qed

lemma queue_inv_count_consistent: "queue_inv C s axs \<Longrightarrow> count_consistent C s"
  by (auto simp: queue_inv_def count_consistent_def stored_list_inv list_inv_def)

section \<open>Sequences of calls\<close>


lemma run_enqueues_returns:
  assumes "queue_inv C s axs" "list_all is_enqueue cs" "mallocs_fresh cs s"
    "length axs + length (delivered cs) \<le> C"
  shows "\<exists>s'. run cs s = Returns (s', [])"
  using assms
proof (induction cs arbitrary: s axs)
  case Nil
  then show ?case by simp
next
  case (Cons c cs)
  from Cons.prems(2) obtain t newNode dat where c: "c = Enqueue t newNode dat"
    by (cases c) auto
  show ?case
  proof (cases newNode)
    case None
    let ?s1 = "log_message ''Error: Memory allocation failed for new node.'' s"
    have e: "enqueue t None dat s = Returns ?s1" by (rule enqueue_alloc_fail)
    have "queue_inv C ?s1 axs" by (rule queue_inv_enqueue_fail[OF Cons.prems(1) e])
    moreover have "list_all is_enqueue cs" using Cons.prems(2) by simp
    moreover have "mallocs_fresh cs ?s1" using Cons.prems(3) by (simp add: c None e)
    moreover have "length axs + length (delivered cs) \<le> C" using Cons.prems(4) by (simp add: c None)
    ultimately have "\<exists>s'. run cs ?s1 = Returns (s', [])" by (rule Cons.IH)
    then show ?thesis by (simp add: c None e)
  next
    case (Some n)
    from Cons.prems(2,3) have fr: "nodes s n = None" by (simp add: c Some)
    from Cons.prems(1,4) obtain e where e: "empty_q s = Suc e"
      by (cases "empty_q s") (auto simp: queue_inv_def c Some)
    from Cons.prems(1) have li: "list_inv s axs" and l: "lock s = None"
      by (simp_all add: queue_inv_def)
    from enqueue_ok[OF li fr e l, of t dat] obtain s1 where
      s1: "enqueue t (Some n) dat s = Returns s1" by blast
    have "queue_inv C s1 (axs @ [(n, dat)])" by (rule queue_inv_enqueue[OF Cons.prems(1) fr s1])
    moreover have "list_all is_enqueue cs" using Cons.prems(2) by simp
    moreover have "mallocs_fresh cs s1" using Cons.prems(3) by (simp add: c Some s1)
    moreover have "length (axs @ [(n, dat)]) + length (delivered cs) \<le> C"
      using Cons.prems(4) by (simp add: c Some)
    ultimately have "\<exists>s'. run cs s1 = Returns (s', [])" by (rule Cons.IH)
    then show ?thesis by (simp add: c Some s1)
  qed
qed

lemma run_dequeues:
  assumes "queue_inv C s axs" "list_all (\<lambda>d. \<not> is_enqueue d) ds" "length ds = length axs"
  shows "\<exists>s'. run ds s = Returns (s', map snd axs) \<and> queue_inv C s' []"
  using assms
proof (induction ds arbitrary: s axs)
  case Nil
  then show ?case by simp
next
  case (Cons d ds)
  from Cons.prems(2) obtain t where d: "d = Dequeue t" by (cases d) auto
  from Cons.prems(3) obtain a x axs' where axs: "axs = (a, x) # axs'"
    by (cases axs) auto
  from Cons.prems(1) have "list_inv s ((a, x) # axs')" "full s = Suc (length axs')" "lock s = None"
    by (simp_all add: queue_inv_def axs)
  from dequeue_ok[OF this, of t] obtain s1 where s1: "dequeue t s = Returns (s1, x)" by blast
  from queue_inv_dequeue[OF Cons.prems(1) s1] have "queue_inv C s1 axs'" by (simp add: axs)
  moreover have "list_all (\<lambda>d. \<not> is_enqueue d) ds" using Cons.prems(2) by simp
  moreover have "length ds = length axs'" using Cons.prems(3) by (simp add: axs)
  ultimately obtain s' where "run ds s1 = Returns (s', map snd axs')" "queue_inv C s' []"
    using Cons.IH by blast
  then show ?case by (simp add: d s1 axs)
qed

lemma delivered_passed: "list_all malloc_succeeds cs \<Longrightarrow> delivered cs = passed cs"
proof (induction cs)
  case Nil
  then show ?case by simp
next
  case (Cons c cs)
  then show ?case by (cases c) auto
qed

section \<open>The claims about the queue\<close>

text \<open>
  C1, FIFO order. Let \<open>s\<close> be any state reached from an initialised queue of capacity \<open>C\<close>
  by earlier calls of \<open>enqueue\<close> and \<open>dequeue\<close>, holding the packets \<open>old\<close> (none, when the
  queue is empty or has been drained). Let \<open>cs\<close> be calls of \<open>enqueue\<close> only, made from \<open>s\<close>;
  the packets they deliver to the queue are \<open>delivered cs\<close>, those of the calls that got a
  node, and with \<open>old\<close> they are at most \<open>C\<close>, so that no call waits for a \<open>dequeue\<close>. Then
  the calls all return, and a matching sequence \<open>ds\<close> of calls of \<open>dequeue\<close> returns first
  \<open>old\<close> and then exactly \<open>delivered cs\<close>, in the order of the \<open>enqueue\<close> calls: on an
  empty queue, \<open>n\<close> calls of \<open>dequeue\<close> return the \<open>n\<close> delivered packets in that order.
\<close>

theorem fifo_order:
  assumes "mallocs_fresh pre (initializeQueue C s0)"
    and "run pre (initializeQueue C s0) = Returns (s, out0)"
    and "stored s = Some old"
    and "list_all is_enqueue cs"
    and "mallocs_fresh cs s"
    and "length old + length (delivered cs) \<le> C"
    and "list_all (\<lambda>d. \<not> is_enqueue d) ds"
    and "length ds = length old + length (delivered cs)"
  shows "\<exists>s1 s2. run cs s = Returns (s1, []) \<and> run ds s1 = Returns (s2, old @ delivered cs)"
proof -
  from run_inv[OF queue_inv_init assms(1,2)] obtain axs0 where i: "queue_inv C s axs0" by blast
  then have "stored s = Some (map snd axs0)" by (simp add: queue_inv_def stored_list_inv)
  with assms(3) have old: "old = map snd axs0" by simp
  have "length axs0 + length (delivered cs) \<le> C" using assms(6) by (simp add: old)
  from run_enqueues_returns[OF i assms(4,5) this]
  obtain s1 where r1: "run cs s = Returns (s1, [])" by auto
  from run_inv[OF i assms(5) r1] obtain axs where
    axs: "queue_inv C s1 axs" "old @ delivered cs = map snd axs" by (auto simp: old)
  have "length ds = length (map snd axs)" using assms(8) axs(2)[symmetric] by simp
  then have "length ds = length axs" by simp
  from run_dequeues[OF axs(1) assms(7) this] obtain s2 where
    "run ds s1 = Returns (s2, map snd axs)" by blast
  with r1 axs(2) show ?thesis by auto
qed

theorem fifo_order_witness:
  "list_all is_enqueue
     [Enqueue 0 (Some 0) (writer_packet 8 3), Enqueue 3 None (writer_packet 6 2),
      Enqueue 0 (Some 4) (writer_packet 9 4)] \<and>
   list_all (\<lambda>d. \<not> is_enqueue d) [Dequeue 2, Dequeue 3] \<and>
   (\<exists>s s1 s2.
      run [Enqueue 0 (Some 0) (writer_packet 7 5), Dequeue 2] (initializeQueue 2 program_start) =
        Returns (s, [writer_packet 7 5]) \<and>
      stored s = Some [] \<and>
      run [Enqueue 0 (Some 0) (writer_packet 8 3), Enqueue 3 None (writer_packet 6 2),
           Enqueue 0 (Some 4) (writer_packet 9 4)] s = Returns (s1, []) \<and>
      run [Dequeue 2, Dequeue 3] s1 = Returns (s2, [writer_packet 8 3, writer_packet 9 4]))"
proof -
  let ?pre = "[Enqueue 0 (Some 0) (writer_packet 7 5), Dequeue 2]"
  let ?cs = "[Enqueue 0 (Some 0) (writer_packet 8 3), Enqueue 3 None (writer_packet 6 2),
      Enqueue 0 (Some 4) (writer_packet 9 4)]"
  let ?ds = "[Dequeue 2, Dequeue 3]"
  have h1: "mallocs_fresh ?pre (initializeQueue 2 program_start)" by (simp add: call_defs)
  have "\<exists>s. run ?pre (initializeQueue 2 program_start) = Returns (s, [writer_packet 7 5]) \<and>
     stored s = Some [] \<and> mallocs_fresh ?cs s"
    by (simp add: call_defs stored_def walk.simps)
  then obtain s where h2: "run ?pre (initializeQueue 2 program_start) = Returns (s, [writer_packet 7 5])"
    and h3: "stored s = Some []" and h5: "mallocs_fresh ?cs s" by blast
  have h4: "list_all is_enqueue ?cs" by simp
  have h6: "length ([]::DataPacket list) + length (delivered ?cs) \<le> 2" by simp
  have h7: "list_all (\<lambda>d. \<not> is_enqueue d) ?ds" by simp
  have h8: "length ?ds = length ([]::DataPacket list) + length (delivered ?cs)" by simp
  from fifo_order[OF h1 h2 h3 h4 h5 h6 h7 h8] obtain s1 s2 where
    "run ?cs s = Returns (s1, [])" "run ?ds s1 = Returns (s2, [] @ delivered ?cs)" by blast
  then have "run ?cs s = Returns (s1, [])"
    "run ?ds s1 = Returns (s2, [writer_packet 8 3, writer_packet 9 4])" by simp_all
  with h2 h3 h4 h7 show ?thesis by blast
qed

text \<open>
  C2, count invariant. In every state reached from an initialised queue of capacity \<open>C\<close> by
  a sequence of \<open>enqueue\<close> and \<open>dequeue\<close> calls, \<open>0 \<le> count \<le> C\<close> and \<open>count\<close> is the
  number of packets stored in the linked list; and whatever call is made next, the state it
  returns in satisfies the same.
\<close>

theorem count_invariant:
  assumes "mallocs_fresh cs (initializeQueue C s0)"
    and "run cs (initializeQueue C s0) = Returns (s, out)"
  shows "count_consistent C s \<and>
         (\<forall>c s' out'. mallocs_fresh [c] s \<longrightarrow> run [c] s = Returns (s', out') \<longrightarrow>
            count_consistent C s')"
proof -
  from run_inv[OF queue_inv_init assms] obtain axs where i: "queue_inv C s axs" by blast
  have "count_consistent C s'" if "mallocs_fresh [c] s" "run [c] s = Returns (s', out')"
    for c s' out'
  proof -
    from run_inv[OF i that] obtain axs' where "queue_inv C s' axs'" by blast
    then show ?thesis by (rule queue_inv_count_consistent)
  qed
  with queue_inv_count_consistent[OF i] show ?thesis by blast
qed

theorem count_invariant_witness:
  "\<exists>s s'. run [Enqueue 0 (Some 0) (writer_packet 7 5), Enqueue 1 (Some 1) (writer_packet 9 4),
              Dequeue 2] (initializeQueue 2 program_start) = Returns (s, [writer_packet 7 5]) \<and>
     count_consistent 2 s \<and>
     run [Enqueue 1 (Some 0) (writer_packet 8 3)] s = Returns (s', []) \<and>
     count_consistent 2 s'"
proof -
  let ?cs = "[Enqueue 0 (Some 0) (writer_packet 7 5), Enqueue 1 (Some 1) (writer_packet 9 4),
              Dequeue 2]"
  have h1: "mallocs_fresh ?cs (initializeQueue 2 program_start)" by (simp add: call_defs)
  have "\<exists>s. run ?cs (initializeQueue 2 program_start) = Returns (s, [writer_packet 7 5]) \<and>
     mallocs_fresh [Enqueue 1 (Some 0) (writer_packet 8 3)] s \<and>
     (\<exists>s'. run [Enqueue 1 (Some 0) (writer_packet 8 3)] s = Returns (s', []))"
    by (simp add: call_defs)
  then obtain s s' where h2: "run ?cs (initializeQueue 2 program_start) = Returns (s, [writer_packet 7 5])"
    and h3: "mallocs_fresh [Enqueue 1 (Some 0) (writer_packet 8 3)] s"
    and h4: "run [Enqueue 1 (Some 0) (writer_packet 8 3)] s = Returns (s', [])" by blast
  from count_invariant[OF h1 h2] h3 h4 have "count_consistent 2 s \<and> count_consistent 2 s'"
    by blast
  with h2 h4 show ?thesis by blast
qed

text \<open>
  C3, no loss and no duplication. After any sequence of \<open>enqueue\<close> and \<open>dequeue\<close> calls on
  an initialised queue, the packets returned by \<open>dequeue\<close> together with the packets still
  stored are, as a multiset, the packets delivered by the \<open>enqueue\<close> calls; in normal
  operation, when every \<open>malloc\<close> of a node succeeds, these are all the packets passed to
  \<open>enqueue\<close>.
\<close>

theorem no_loss_no_duplication:
  assumes "mallocs_fresh cs (initializeQueue C s0)"
    and "run cs (initializeQueue C s0) = Returns (s, out)"
  shows "\<exists>xs. stored s = Some xs \<and>
           mset out + mset xs = mset (delivered cs) \<and>
           (list_all malloc_succeeds cs \<longrightarrow> mset out + mset xs = mset (passed cs))"
proof -
  from run_inv[OF queue_inv_init assms] obtain axs where
    i: "queue_inv C s axs" and e: "delivered cs = out @ map snd axs" by auto
  from i have "stored s = Some (map snd axs)" by (simp add: queue_inv_def stored_list_inv)
  moreover have "mset out + mset (map snd axs) = mset (delivered cs)" by (simp add: e)
  ultimately show ?thesis by (auto simp: delivered_passed)
qed

theorem no_loss_no_duplication_witness:
  "list_all malloc_succeeds
     [Enqueue 0 (Some 0) (writer_packet 7 5), Enqueue 1 (Some 1) (writer_packet 9 4), Dequeue 2] \<and>
   (\<exists>s xs. run [Enqueue 0 (Some 0) (writer_packet 7 5), Enqueue 1 (Some 1) (writer_packet 9 4),
               Dequeue 2] (initializeQueue 2 program_start) = Returns (s, [writer_packet 7 5]) \<and>
      stored s = Some xs \<and>
      mset [writer_packet 7 5] + mset xs = mset [writer_packet 7 5, writer_packet 9 4])"
proof -
  let ?cs = "[Enqueue 0 (Some 0) (writer_packet 7 5), Enqueue 1 (Some 1) (writer_packet 9 4),
              Dequeue 2]"
  have h0: "list_all malloc_succeeds ?cs" by simp
  have h1: "mallocs_fresh ?cs (initializeQueue 2 program_start)" by (simp add: call_defs)
  have "\<exists>s. run ?cs (initializeQueue 2 program_start) = Returns (s, [writer_packet 7 5])"
    by (simp add: call_defs)
  then obtain s where h2: "run ?cs (initializeQueue 2 program_start) = Returns (s, [writer_packet 7 5])" ..
  from no_loss_no_duplication[OF h1 h2] h0 obtain xs where
    "stored s = Some xs" "mset [writer_packet 7 5] + mset xs = mset (passed ?cs)" by blast
  with h0 h2 show ?thesis by auto
qed


text \<open>
  C4, no "queue empty" result while \<open>count > 0\<close>. Let the list and the count of state
  \<open>s\<close> agree and \<open>count > 0\<close>, and let the call of \<open>dequeue\<close> get past \<open>sem_wait\<close> on
  \<open>full\<close> and past \<open>pthread_mutex_lock\<close>. Then \<open>head\<close> is not \<open>NULL\<close> when line 156 tests
  it, and the call returns the packet of the head node and logs \<open>Data dequeued.\<close>, not
  the zero packet of the branch for the empty list.
\<close>

theorem dequeue_not_empty_result:
  assumes "list_inv s axs"
    and "0 < count_q s"
    and "sem_wait (full s) = Some f"
    and "pthread_mutex_lock t (lock s) = Some l"
  shows "head (s\<lparr>full := f, lock := l\<rparr>) \<noteq> None \<and>
         (\<exists>a x axs' s'. axs = (a, x) # axs' \<and> dequeue t s = Returns (s', x) \<and>
            list_inv s' axs' \<and> logfile s' = logfile s @ [''Data dequeued.''])"
proof -
  from assms(1,2) obtain a x axs' where axs: "axs = (a, x) # axs'"
    by (cases axs) (auto simp: list_inv_def)
  from assms(3) have f: "full s = Suc f" by (auto simp: sem_wait_def split: if_splits)
  from assms(4) have l: "lock s = None"
    by (auto simp: pthread_mutex_lock_def split: option.splits)
  from assms(1) have h: "head s = Some a" by (simp add: list_inv_def axs)
  from dequeue_ok[OF assms(1)[unfolded axs] f l, of t] h show ?thesis
    by (auto simp: axs)
qed

theorem dequeue_not_empty_result_witness:
  "\<exists>s s'. run [Enqueue 0 (Some 0) (writer_packet 7 5), Enqueue 1 (Some 1) (writer_packet 9 4)]
        (initializeQueue 2 program_start) = Returns (s, []) \<and>
     list_inv s [(0, writer_packet 7 5), (1, writer_packet 9 4)] \<and> 0 < count_q s \<and>
     sem_wait (full s) = Some 1 \<and> pthread_mutex_lock 2 (lock s) = Some (Some 2) \<and>
     head (s\<lparr>full := 1, lock := Some 2\<rparr>) \<noteq> None \<and>
     dequeue 2 s = Returns (s', writer_packet 7 5) \<and>
     logfile s' = logfile s @ [''Data dequeued.'']"
proof -
  have "\<exists>s. run [Enqueue 0 (Some 0) (writer_packet 7 5), Enqueue 1 (Some 1) (writer_packet 9 4)]
        (initializeQueue 2 program_start) = Returns (s, []) \<and>
     list_inv s [(0, writer_packet 7 5), (1, writer_packet 9 4)] \<and> 0 < count_q s \<and>
     sem_wait (full s) = Some 1 \<and> pthread_mutex_lock 2 (lock s) = Some (Some 2)"
    by (simp add: call_defs list_inv_def)
  then obtain s where r: "run [Enqueue 0 (Some 0) (writer_packet 7 5),
        Enqueue 1 (Some 1) (writer_packet 9 4)] (initializeQueue 2 program_start) = Returns (s, [])"
    and h1: "list_inv s [(0, writer_packet 7 5), (1, writer_packet 9 4)]"
    and h2: "0 < count_q s" and h3: "sem_wait (full s) = Some 1"
    and h4: "pthread_mutex_lock 2 (lock s) = Some (Some 2)" by blast
  from dequeue_not_empty_result[OF h1 h2 h3 h4] r h1 h2 h3 h4 show ?thesis by auto
qed

lemma dequeue_error_branch:
  assumes "head s = None" "full s = Suc f" "lock s = None"
  shows "dequeue t s =
     Returns (s\<lparr>full := f, empty_q := empty_q s + 1,
                logfile := logfile s @ [''Error: Tried to dequeue from an empty queue.'']\<rparr>,
              zero_packet)"
  using assms by (simp add: call_defs)

lemma desync_unreachable:
  assumes "mallocs_fresh cs (initializeQueue C s0)"
    and "run cs (initializeQueue C s0) = Returns (s, out)"
    and "head s = None"
  shows "full s = 0"
proof -
  from run_inv[OF queue_inv_init assms(1,2)] obtain axs where i: "queue_inv C s axs" by blast
  with assms(3) have "axs = []" by (cases axs) (auto simp: queue_inv_def list_inv_def)
  with i show ?thesis by (simp add: queue_inv_def)
qed

text \<open>
  C5, the branch for the unexpectedly empty list. The claim has \<open>dequeue\<close> give back the
  count it took from \<open>full\<close> and touch no other semaphore; the code posts \<open>empty\<close>. In
  \<open>desync_example\<close> the semaphore \<open>full\<close> is 1 and the list is empty: \<open>dequeue\<close> takes \<open>full\<close>
  down to 0, finds \<open>head = NULL\<close>, logs the error and returns the zero packet; \<open>full\<close> stays
  0 and \<open>empty\<close> goes from 2 to 3.
\<close>

theorem dequeue_desync_posts_empty:
  "full desync_example = 1 \<and> empty_q desync_example = 2 \<and> head desync_example = None \<and>
   dequeue 0 desync_example =
     Returns (desync_example\<lparr>full := 0, empty_q := 3,
                logfile := [''Error: Tried to dequeue from an empty queue.'']\<rparr>, zero_packet)"
  by (simp add: call_defs desync_example_def)

text \<open>
  C5 as the code has it. When a call of \<open>dequeue\<close> has got past \<open>sem_wait\<close> on \<open>full\<close> and
  past \<open>pthread_mutex_lock\<close> and finds \<open>head = NULL\<close>, it releases the mutex, logs
  \<open>Error: Tried to dequeue from an empty queue.\<close>, posts \<open>empty\<close> and returns the zero packet:
  \<open>full\<close> keeps the value \<open>sem_wait\<close> left it with, \<open>empty\<close> is one higher, the list and the
  count are untouched. (By \<open>desync_unreachable\<close> no sequence of calls on an initialised
  queue leads to such a state.)
\<close>

theorem dequeue_empty_list_branch:
  assumes "sem_wait (full s) = Some f"
    and "pthread_mutex_lock t (lock s) = Some l"
    and "head s = None"
  shows "dequeue t s =
     Returns (s\<lparr>full := f, empty_q := empty_q s + 1,
                logfile := logfile s @ [''Error: Tried to dequeue from an empty queue.'']\<rparr>,
              zero_packet)"
proof -
  from assms(1) have f: "full s = Suc f" by (auto simp: sem_wait_def split: if_splits)
  from assms(2) have l: "lock s = None"
    by (auto simp: pthread_mutex_lock_def split: option.splits)
  from assms(3) f l show ?thesis by (rule dequeue_error_branch)
qed

theorem dequeue_empty_list_branch_witness:
  "sem_wait (full (desync_example\<lparr>full := 3\<rparr>)) = Some 2 \<and>
   pthread_mutex_lock 5 (lock (desync_example\<lparr>full := 3\<rparr>)) = Some (Some 5) \<and>
   head (desync_example\<lparr>full := 3\<rparr>) = None \<and>
   dequeue 5 (desync_example\<lparr>full := 3\<rparr>) =
     Returns (desync_example\<lparr>full := 2, empty_q := 3,
                logfile := [''Error: Tried to dequeue from an empty queue.'']\<rparr>, zero_packet)"
proof -
  let ?s = "desync_example\<lparr>full := 3\<rparr>"
  have h1: "sem_wait (full ?s) = Some 2" by (simp add: sem_wait_def)
  have h2: "pthread_mutex_lock 5 (lock ?s) = Some (Some 5)"
    by (simp add: pthread_mutex_lock_def desync_example_def)
  have h3: "head ?s = None" by (simp add: desync_example_def)
  from dequeue_empty_list_branch[OF h1 h2 h3] h1 h2 h3 show ?thesis
    by (simp add: desync_example_def)
qed

text \<open>
  C6, \<open>enqueue\<close> when \<open>malloc\<close> fails. The claim makes a failed allocation fatal; the code
  returns from it. On a queue just initialised with capacity 2 the call returns with only
  a line added to the log: the count is still 0 and the list still empty, the packet is
  dropped.
\<close>

theorem enqueue_alloc_failure_returns:
  "enqueue 0 None (writer_packet 7 5) (initializeQueue 2 program_start) =
     Returns (log_message ''Error: Memory allocation failed for new node.''
               (initializeQueue 2 program_start)) \<and>
   count_q (log_message ''Error: Memory allocation failed for new node.''
              (initializeQueue 2 program_start)) = 0 \<and>
   stored (log_message ''Error: Memory allocation failed for new node.''
             (initializeQueue 2 program_start)) = Some []"
  by (simp add: call_defs stored_def walk.simps)

text \<open>
  C6 as the code has it. On a queue whose list and count agree, a call of \<open>enqueue\<close> that
  returns after \<open>malloc\<close> gave it a node has hung the packet at the tail and raised the
  count by one; a call whose \<open>malloc\<close> failed has only logged the failure: the queue is
  as before and the packet is not stored.
\<close>

theorem enqueue_return_paths:
  assumes "list_inv s axs"
    and "case newNode of None \<Rightarrow> True | Some n \<Rightarrow> nodes s n = None"
    and "enqueue t newNode x s = Returns s'"
  shows "case newNode of
           Some n \<Rightarrow>
             list_inv s' (axs @ [(n, x)]) \<and> stored s' = Some (map snd axs @ [x]) \<and>
             count_q s' = count_q s + 1
         | None \<Rightarrow>
             s' = log_message ''Error: Memory allocation failed for new node.'' s \<and>
             list_inv s' axs \<and> stored s' = Some (map snd axs) \<and> count_q s' = count_q s"
proof (cases newNode)
  case None
  from assms(3) have s': "s' = log_message ''Error: Memory allocation failed for new node.'' s"
    by (simp add: None enqueue_alloc_fail)
  have "list_inv s' axs" by (rule list_inv_frame[OF assms(1)]) (simp_all add: s' log_message_def)
  then show ?thesis using s' by (simp add: None stored_list_inv log_message_def)
next
  case (Some n)
  from assms(2) have fr: "nodes s n = None" by (simp add: Some)
  from enqueue_Returns_pre[OF assms(3)[unfolded Some]] obtain e where
    e: "empty_q s = Suc e" and l: "lock s = None" by (cases "empty_q s") auto
  from enqueue_ok[OF assms(1) fr e l, of t x] assms(3) have li: "list_inv s' (axs @ [(n, x)])"
    by (auto simp: Some)
  from li assms(1) have "count_q s' = count_q s + 1" by (simp add: list_inv_def)
  with li show ?thesis by (simp add: Some stored_list_inv)
qed

theorem enqueue_return_paths_witness:
  "\<exists>s s'. enqueue 0 (Some 0) (writer_packet 7 5) (initializeQueue 2 program_start) = Returns s \<and>
     list_inv s [(0, writer_packet 7 5)] \<and> nodes s 1 = None \<and>
     enqueue 1 (Some 1) (writer_packet 9 4) s = Returns s' \<and>
     stored s' = Some [writer_packet 7 5, writer_packet 9 4] \<and> count_q s' = count_q s + 1"
proof -
  have "\<exists>s. enqueue 0 (Some 0) (writer_packet 7 5) (initializeQueue 2 program_start) = Returns s \<and>
     list_inv s [(0, writer_packet 7 5)] \<and> nodes s 1 = None \<and>
     (\<exists>s'. enqueue 1 (Some 1) (writer_packet 9 4) s = Returns s')"
    by (simp add: call_defs list_inv_def)
  then obtain s s' where
    r: "enqueue 0 (Some 0) (writer_packet 7 5) (initializeQueue 2 program_start) = Returns s"
    and h1: "list_inv s [(0, writer_packet 7 5)]"
    and h2: "case Some (1::nat) of None \<Rightarrow> True | Some n \<Rightarrow> nodes s n = None"
    and h3: "enqueue 1 (Some 1) (writer_packet 9 4) s = Returns s'" by auto
  from enqueue_return_paths[OF h1 h2 h3] r h1 h2 h3 show ?thesis by auto
qed




section \<open>The claims about the writer thread\<close>

lemma c_rem_nonneg: "0 < b \<Longrightarrow> c_rem (int r) b = int r mod b"
  by (cases "r = 0") (simp_all add: c_rem_def)

text \<open>
  C9, zero-length discard. In a pass of the writer loop in which \<open>get_external_data\<close> returns
  a length \<open>\<le> 0\<close>, \<open>enqueue\<close> is not called: whatever its \<open>malloc\<close> would have returned, the
  pass returns in the state it started in, the queue with its list, count and semaphores
  untouched and the payload buffer freed again; the loop goes on with the next pass.
\<close>

theorem zero_length_discard:
  assumes "bufs s b = None"
    and "get_external_data rnd bytes 1024 = Returns (buffer, len)"
    and "len \<le> 0"
  shows "writer_iteration t (Some (b, bytes)) rnd newNode s = Returns s \<and>
         writer_thread t ((Some (b, bytes), rnd, newNode) # ins) s = writer_thread t ins s"
proof -
  have "(bufs s)(b := None) = bufs s" using assms(1) by auto
  then have "writer_iteration t (Some (b, bytes)) rnd newNode s = Returns s"
    using assms(2,3) by (simp add: writer_iteration_def writer_packet_def)
  then show ?thesis by simp
qed

theorem zero_length_discard_witness:
  "bufs (initializeQueue 2 program_start) 7 = None \<and>
   get_external_data 2048 (replicate 1024 (CHR ''x'')) 1024 =
     Returns (replicate 1024 (CHR ''x''), 0) \<and>
   writer_iteration 0 (Some (7, replicate 1024 (CHR ''x''))) 2048 (Some 0)
     (initializeQueue 2 program_start) = Returns (initializeQueue 2 program_start)"
proof -
  have h1: "bufs (initializeQueue 2 program_start) 7 = None" by (simp add: call_defs)
  have h2: "get_external_data 2048 (replicate 1024 (CHR ''x'')) 1024 =
     Returns (replicate 1024 (CHR ''x''), 0)"
    by (simp add: get_external_data_def c_rem_def strncpy_def)
  have h3: "(0::int) \<le> 0" by simp
  from zero_length_discard[OF h1 h2 h3] h1 h2 show ?thesis by blast
qed

text \<open>
  C10, the range of \<open>get_external_data\<close>. For a buffer size \<open>> 0\<close> the test of line 197 is
  false, so the branch returning \<open>-1\<close> is not taken; every returned length is
  \<open>rand() % bufferSizeInBytes\<close>, from 0 to \<open>bufferSizeInBytes - 1\<close>; and the call returns
  whenever the buffer has the size it is declared with.
\<close>

theorem get_external_data_range:
  assumes "0 < bufferSizeInBytes"
  shows "\<not> bufferSizeInBytes < c_rem (int rnd) bufferSizeInBytes \<and>
         (\<forall>buffer' len. get_external_data rnd buffer bufferSizeInBytes = Returns (buffer', len) \<longrightarrow>
            0 \<le> len \<and> len \<le> bufferSizeInBytes - 1 \<and> len = int rnd mod bufferSizeInBytes) \<and>
         (bufferSizeInBytes \<le> int (length buffer) \<longrightarrow>
            (\<exists>buffer'. get_external_data rnd buffer bufferSizeInBytes =
               Returns (buffer', int rnd mod bufferSizeInBytes)))"
proof -
  let ?v = "int rnd mod bufferSizeInBytes"
  have v: "c_rem (int rnd) bufferSizeInBytes = ?v" by (rule c_rem_nonneg[OF assms])
  have r: "0 \<le> ?v" "?v < bufferSizeInBytes" using assms by simp_all
  show ?thesis using assms r
    by (auto simp: get_external_data_def v Let_def split: if_splits)
qed

theorem get_external_data_range_witness:
  "(0::int) < 1024 \<and> (1024::int) \<le> int (length (replicate 1024 (CHR ''x''))) \<and>
   (\<exists>buffer'. get_external_data 2051 (replicate 1024 (CHR ''x'')) 1024 = Returns (buffer', 3))"
proof -
  have h: "(0::int) < 1024" by simp
  from get_external_data_range[OF h, of 2051 "replicate 1024 (CHR ''x'')"] show ?thesis by simp
qed

section \<open>Threads: the order of semaphore and mutex operations\<close>

lemma stmt_phase:
  "stmt t th s = Some (l, th', s') \<Longrightarrow> phase_step (phase_of th) l = Some (phase_of th')"
  by (cases th) (auto split: option.splits)

lemma stmt_lock:
  "stmt t th s = Some (l, th', s') \<Longrightarrow>
   (case l of
      Mutex_lock \<Rightarrow> lock s = None \<and> lock s' = Some t
    | Mutex_unlock \<Rightarrow> lock s' = None
    | _ \<Rightarrow> lock s' = lock s)"
  by (cases th)
     (auto split: option.splits
           simp: enqueue_link_def dequeue_unlink_def log_message_def pthread_mutex_lock_def
                 pthread_mutex_unlock_def Let_def)

text \<open>What one move changes: the moving thread takes one step of its phase, no other does.\<close>

lemma move_effect:
  assumes "move m \<sigma> = Some (t, l, \<sigma>')"
  shows "phase_step (phase_of (threads \<sigma> t)) l = Some (phase_of (threads \<sigma>' t)) \<and>
         (\<forall>t'. t' \<noteq> t \<longrightarrow> threads \<sigma>' t' = threads \<sigma> t') \<and>
         (case l of
            Mutex_lock \<Rightarrow> lock (shared \<sigma>) = None \<and> lock (shared \<sigma>') = Some t
          | Mutex_unlock \<Rightarrow> lock (shared \<sigma>') = None
          | _ \<Rightarrow> lock (shared \<sigma>') = lock (shared \<sigma>))"
proof (cases m)
  case (Call_enqueue u newNode dat)
  with assms show ?thesis
    by (cases newNode) (auto simp: enqueue_entry_def split: if_splits)
next
  case (Call_dequeue u)
  with assms show ?thesis by (auto split: if_splits)
next
  case (Step u)
  with assms obtain th s' where st: "stmt t (threads \<sigma> t) (shared \<sigma>) = Some (l, th, s')"
    and \<sigma>': "\<sigma>' = \<lparr>shared = s', threads = (threads \<sigma>)(t := th)\<rparr>"
    by (auto split: option.splits)
  from stmt_phase[OF st] stmt_lock[OF st] show ?thesis by (cases l) (simp_all add: \<sigma>')
qed

lemma phase_step_holding:
  "phase_step p l = Some p' \<Longrightarrow>
   (case l of
      Mutex_lock \<Rightarrow> \<not> is_holding p \<and> is_holding p'
    | Mutex_unlock \<Rightarrow> is_holding p \<and> \<not> is_holding p'
    | _ \<Rightarrow> is_holding p' = is_holding p)"
  by (cases p; cases l) (auto split: if_splits)

lemma mutex_inv_move:
  assumes "mutex_inv \<sigma>" "move m \<sigma> = Some (t, l, \<sigma>')"
  shows "mutex_inv \<sigma>'"
proof -
  from move_effect[OF assms(2)] have
    ph: "phase_step (phase_of (threads \<sigma> t)) l = Some (phase_of (threads \<sigma>' t))"
    and oth: "\<And>t'. t' \<noteq> t \<Longrightarrow> threads \<sigma>' t' = threads \<sigma> t'"
    and lk: "case l of
            Mutex_lock \<Rightarrow> lock (shared \<sigma>) = None \<and> lock (shared \<sigma>') = Some t
          | Mutex_unlock \<Rightarrow> lock (shared \<sigma>') = None
          | _ \<Rightarrow> lock (shared \<sigma>') = lock (shared \<sigma>)"
    by auto
  note hd = phase_step_holding[OF ph]
  from assms(1) have inv: "\<And>u. lock (shared \<sigma>) = Some u \<longleftrightarrow> is_holding (phase_of (threads \<sigma> u))"
    by (simp add: mutex_inv_def)
  have "lock (shared \<sigma>') = Some u \<longleftrightarrow> is_holding (phase_of (threads \<sigma>' u))" for u
  proof (cases "u = t")
    case True
    show ?thesis
    proof (cases l)
      case Mutex_lock
      with hd lk show ?thesis by (simp add: True)
    next
      case Mutex_unlock
      with hd lk show ?thesis by (simp add: True)
    next
      case (Sem_wait x)
      with hd lk inv[of t] show ?thesis by (simp add: True)
    next
      case (Sem_post x)
      with hd lk inv[of t] show ?thesis by (simp add: True)
    next
      case Other
      with hd lk inv[of t] show ?thesis by (simp add: True)
    qed
  next
    case False
    show ?thesis
    proof (cases l)
      case Mutex_lock
      with lk have "lock (shared \<sigma>) = None" "lock (shared \<sigma>') = Some t" by simp_all
      with inv[of u] False oth[of u] show ?thesis by auto
    next
      case Mutex_unlock
      with hd lk have "is_holding (phase_of (threads \<sigma> t))" "lock (shared \<sigma>') = None" by simp_all
      with inv[of t] inv[of u] False oth[of u] show ?thesis by auto
    next
      case (Sem_wait x)
      with lk inv[of u] False oth[of u] show ?thesis by simp
    next
      case (Sem_post x)
      with lk inv[of u] False oth[of u] show ?thesis by simp
    next
      case Other
      with lk inv[of u] False oth[of u] show ?thesis by simp
    qed
  qed
  then show ?thesis by (simp add: mutex_inv_def)
qed

lemma mutex_inv_boot: "mutex_inv (boot C s0)"
  by (simp add: mutex_inv_def boot_def initializeQueue_def log_message_def)

lemma mutex_inv_moves:
  "mutex_inv \<sigma> \<Longrightarrow> moves ms \<sigma> = Some (tr, \<sigma>') \<Longrightarrow> mutex_inv \<sigma>'"
proof (induction ms arbitrary: \<sigma> tr)
  case Nil
  then show ?case by simp
next
  case (Cons m ms)
  from Cons.prems(2) obtain t l \<sigma>1 tr1 where m: "move m \<sigma> = Some (t, l, \<sigma>1)"
    and r: "moves ms \<sigma>1 = Some (tr1, \<sigma>')"
    by (auto split: option.splits)
  from mutex_inv_move[OF Cons.prems(1) m] have "mutex_inv \<sigma>1" .
  from Cons.IH[OF this r] show ?case .
qed

lemma follow_moves:
  "moves ms \<sigma> = Some (tr, \<sigma>') \<Longrightarrow>
   follow (phase_of (threads \<sigma> t)) (labels_of t tr) = Some (phase_of (threads \<sigma>' t))"
proof (induction ms arbitrary: \<sigma> tr)
  case Nil
  then show ?case by (simp add: labels_of_def)
next
  case (Cons m ms)
  from Cons.prems obtain u l \<sigma>1 tr1 where m: "move m \<sigma> = Some (u, l, \<sigma>1)"
    and r: "moves ms \<sigma>1 = Some (tr1, \<sigma>')" and tr: "tr = (u, l) # tr1"
    by (auto split: option.splits)
  from Cons.IH[OF r] have
    IH: "follow (phase_of (threads \<sigma>1 t)) (labels_of t tr1) = Some (phase_of (threads \<sigma>' t))" .
  from move_effect[OF m] have
    ph: "phase_step (phase_of (threads \<sigma> u)) l = Some (phase_of (threads \<sigma>1 u))"
    and oth: "\<And>t'. t' \<noteq> u \<Longrightarrow> threads \<sigma>1 t' = threads \<sigma> t'"
    by auto
  show ?case
  proof (cases "u = t")
    case True
    with ph IH show ?thesis by (simp add: tr labels_of_def)
  next
    case False
    with oth[of t] IH show ?thesis by (simp add: tr labels_of_def)
  qed
qed

lemma phase_at_sem: "at_sem_wait th \<or> at_sem_post th \<Longrightarrow> \<not> is_holding (phase_of th)"
  by (cases th) auto

text \<open>
  C8, lock ordering. Take any interleaving of any threads calling \<open>enqueue\<close> and \<open>dequeue\<close>
  on a freshly initialised queue, and any thread \<open>t\<close>. The semaphore and mutex operations
  of \<open>t\<close> follow, call after call, the order \<open>sem_wait\<close>, \<open>pthread_mutex_lock\<close>,
  \<open>pthread_mutex_unlock\<close>, \<open>sem_post\<close> on the other semaphore: \<open>follow\<close> accepts them and
  ends in the phase of the statement \<open>t\<close> stands at. The mutex is held by \<open>t\<close> exactly
  between its lock and its unlock, so a thread that stands at a \<open>sem_wait\<close>, blocked or
  not, or at a \<open>sem_post\<close> does not hold the mutex.
\<close>

theorem lock_ordering:
  assumes "moves ms (boot C s0) = Some (tr, \<sigma>)"
  shows "follow Outside (labels_of t tr) = Some (phase_of (threads \<sigma> t)) \<and>
         (lock (shared \<sigma>) = Some t \<longleftrightarrow> is_holding (phase_of (threads \<sigma> t))) \<and>
         (at_sem_wait (threads \<sigma> t) \<or> at_sem_post (threads \<sigma> t) \<longrightarrow>
            lock (shared \<sigma>) \<noteq> Some t)"
proof -
  from follow_moves[OF assms, of t] have
    f: "follow Outside (labels_of t tr) = Some (phase_of (threads \<sigma> t))"
    by (simp add: boot_def)
  from mutex_inv_moves[OF mutex_inv_boot assms] have
    m: "lock (shared \<sigma>) = Some t \<longleftrightarrow> is_holding (phase_of (threads \<sigma> t))"
    by (simp add: mutex_inv_def)
  from m phase_at_sem[of "threads \<sigma> t"] f show ?thesis by blast
qed

theorem lock_ordering_witness:
  "\<exists>tr \<sigma>.
     moves [Call_enqueue 0 (Some 0) (writer_packet 7 5), Call_dequeue 2, Step 0, Step 0, Step 0,
            Step 0, Step 0, Step 2, Step 0, Step 2, Call_enqueue 0 (Some 3) (writer_packet 9 4),
            Step 0]
       (boot 2 program_start) = Some (tr, \<sigma>) \<and>
     labels_of 0 tr =
       [Other, Sem_wait Sem_empty, Mutex_lock, Other, Mutex_unlock, Sem_post Sem_full, Other,
        Other, Sem_wait Sem_empty] \<and>
     labels_of 2 tr = [Other, Sem_wait Sem_full, Mutex_lock] \<and>
     follow Outside (labels_of 0 tr) = Some (Acquired Sem_empty) \<and>
     follow Outside (labels_of 2 tr) = Some (Holding Sem_full) \<and>
     lock (shared \<sigma>) = Some 2 \<and> threads \<sigma> 0 = Enq_lock 3 \<and> threads \<sigma> 2 = Deq_test"
proof -
  let ?ms = "[Call_enqueue 0 (Some 0) (writer_packet 7 5), Call_dequeue 2, Step 0, Step 0, Step 0,
            Step 0, Step 0, Step 2, Step 0, Step 2, Call_enqueue 0 (Some 3) (writer_packet 9 4),
            Step 0]"
  have "\<exists>tr \<sigma>. moves ?ms (boot 2 program_start) = Some (tr, \<sigma>) \<and>
     labels_of 0 tr =
       [Other, Sem_wait Sem_empty, Mutex_lock, Other, Mutex_unlock, Sem_post Sem_full, Other,
        Other, Sem_wait Sem_empty] \<and>
     labels_of 2 tr = [Other, Sem_wait Sem_full, Mutex_lock] \<and>
     threads \<sigma> 0 = Enq_lock 3 \<and> threads \<sigma> 2 = Deq_test"
    by (simp add: boot_def enqueue_entry_def labels_of_def call_defs)
  then obtain tr \<sigma> where h: "moves ?ms (boot 2 program_start) = Some (tr, \<sigma>)"
    and l0: "labels_of 0 tr =
       [Other, Sem_wait Sem_empty, Mutex_lock, Other, Mutex_unlock, Sem_post Sem_full, Other,
        Other, Sem_wait Sem_empty]"
    and l1: "labels_of 2 tr = [Other, Sem_wait Sem_full, Mutex_lock]"
    and t0: "threads \<sigma> 0 = Enq_lock 3" and t1: "threads \<sigma> 2 = Deq_test"
    by blast
  from lock_ordering[OF h, of 0] have "follow Outside (labels_of 0 tr) = Some (Acquired Sem_empty)"
    by (simp add: t0)
  moreover from lock_ordering[OF h, of 2] have
    "follow Outside (labels_of 2 tr) = Some (Holding Sem_full)" "lock (shared \<sigma>) = Some 2"
    by (simp_all add: t1)
  ultimately show ?thesis using h l0 l1 t0 t1 by blast
qed

section \<open>The calls as sequences of statements\<close>

text \<open>
  \<open>enqueue\<close> and \<open>dequeue\<close> above are their statements executed in order by a thread
  that no other thread interrupts: a call returns when the thread gets back to \<open>Idle\<close>,
  it blocks when the thread stops at a \<open>sem_wait\<close> or a \<open>pthread_mutex_lock\<close>, it faults
  when the thread stops in a critical section.
\<close>

lemma enqueue_statements:
  "enqueue t newNode dat s =
     (case enqueue_entry newNode dat s of
        (th, s1) \<Rightarrow>
          (case solo 6 t th s1 of
             (Idle, s') \<Rightarrow> Returns s'
           | (Enq_link n, s') \<Rightarrow> Faults
           | (th', s') \<Rightarrow> Blocks s'))"
  by (cases newNode)
     (auto simp: enqueue_def enqueue_entry_def eval_nat_numeral Let_def split: option.splits)

lemma dequeue_statements:
  "dequeue t s =
     (case solo 6 t Deq_sem_wait s of
        (Idle, s') \<Rightarrow> Returns (s', zero_packet)
      | (Deq_log dat, s') \<Rightarrow> Returns (log_message ''Data dequeued.'' s', dat)
      | (Deq_test, s') \<Rightarrow> Faults
      | (th', s') \<Rightarrow> Blocks s')"
  by (auto simp: dequeue_def eval_nat_numeral Let_def split: option.splits)

section \<open>Threads: the invariant of every interleaving\<close>

lemma pending_update:
  assumes "finite {t. f t \<noteq> Idle}" "w Idle = 0"
  shows "pending w (f(u := th)) = pending w f - w (f u) + w th"
proof -
  let ?A = "insert u {t. f t \<noteq> Idle}"
  have fin: "finite ?A" using assms(1) by simp
  have 1: "pending w f = (\<Sum>t\<in>?A. w (f t))"
    unfolding pending_def by (rule sum.mono_neutral_left[OF fin]) (auto simp: assms(2))
  have 2: "pending w (f(u := th)) = (\<Sum>t\<in>?A. w ((f(u := th)) t))"
    unfolding pending_def by (rule sum.mono_neutral_left[OF fin]) (auto simp: assms(2))
  have 3: "(\<Sum>t\<in>?A. w (f t)) = w (f u) + (\<Sum>t\<in>?A - {u}. w (f t))"
    by (rule sum.remove[OF fin]) simp
  have 4: "(\<Sum>t\<in>?A. w ((f(u := th)) t)) = w ((f(u := th)) u) + (\<Sum>t\<in>?A - {u}. w ((f(u := th)) t))"
    by (rule sum.remove[OF fin]) simp
  have 5: "(\<Sum>t\<in>?A - {u}. w ((f(u := th)) t)) = (\<Sum>t\<in>?A - {u}. w (f t))"
    by (rule sum.cong) auto
  show ?thesis using 1 2 3 4 5 by simp
qed

lemma finite_update:
  "finite {t. f t \<noteq> Idle} \<Longrightarrow> finite {t. (f(u := th)) t \<noteq> Idle}"
  by (rule finite_subset[of _ "insert u {t. f t \<noteq> Idle}"]) auto

text \<open>What a statement outside the error branch does to the two sums of the invariant.\<close>

lemma stmt_numeric:
  assumes "stmt t th s = Some (l, th', s')" "\<not> in_error_branch th" "\<not> in_error_branch th'"
  shows "int (full s') + items_pending th' - count_q s' = int (full s) + items_pending th - count_q s \<and>
         int (empty_q s') + slots_pending th' + count_q s' =
           int (empty_q s) + slots_pending th + count_q s"
  using assms
  by (cases th)
     (auto simp: sem_wait_def sem_post_def log_message_def enqueue_link_def dequeue_unlink_def
                 Let_def
           split: option.splits if_splits)

text \<open>The statements other than linking, unlinking and \<open>free\<close> leave the list alone.\<close>

lemma stmt_frame:
  assumes "stmt t th s = Some (l, th', s')"
    and "\<forall>n. th \<noteq> Enq_link n" "th \<noteq> Deq_test" "\<forall>n x. th \<noteq> Deq_free n x"
  shows "nodes s' = nodes s \<and> head s' = head s \<and> tail s' = tail s \<and> count_q s' = count_q s \<and>
         owned th' = owned th \<and> unlinked th' = unlinked th"
  using assms
  by (cases th) (auto simp: log_message_def split: option.splits)

lemma pending_ge:
  assumes "finite {t. f t \<noteq> Idle}" "w Idle = 0" "\<And>th. 0 \<le> w th"
  shows "w (f u) \<le> pending w f"
proof -
  have "0 \<le> pending w (f(u := Idle))" unfolding pending_def by (rule sum_nonneg) (rule assms(3))
  moreover have "pending w (f(u := Idle)) = pending w f - w (f u) + w Idle"
    using assms(1,2) by (rule pending_update)
  ultimately show ?thesis by (simp add: assms(2))
qed

lemma items_pending_nonneg: "0 \<le> items_pending th"
  by (cases th) auto

lemma slots_pending_nonneg: "0 \<le> slots_pending th"
  by (cases th) auto

lemma stmt_error:
  "stmt t th s = Some (l, th', s') \<Longrightarrow> in_error_branch th' \<Longrightarrow>
   in_error_branch th \<or> (th = Deq_test \<and> head s = None)"
  by (cases th) (auto split: option.splits)

text \<open>How the ownership of nodes passes through a move of thread \<open>t\<close>.\<close>

lemma own_step:
  assumes "own_inv s f axs"
    and "\<And>n. owned th' = Some n \<Longrightarrow>
           n \<notin> fst ` set axs' \<and> (\<forall>u. u \<noteq> t \<longrightarrow> owned (f u) \<noteq> Some n) \<and>
           (\<exists>nd. nodes s' n = Some nd \<and> (unlinked th' \<longrightarrow> next_n nd = None))"
    and "\<And>u n. u \<noteq> t \<Longrightarrow> owned (f u) = Some n \<Longrightarrow>
           n \<notin> fst ` set axs' \<and> nodes s' n = nodes s n"
  shows "own_inv s' (f(t := th')) axs'"
  unfolding own_inv_def
proof (intro allI impI)
  fix u n
  assume o: "owned ((f(t := th')) u) = Some n"
  show "n \<notin> fst ` set axs' \<and>
        (\<forall>t'. t' \<noteq> u \<longrightarrow> owned ((f(t := th')) t') \<noteq> Some n) \<and>
        (\<exists>nd. nodes s' n = Some nd \<and> (unlinked ((f(t := th')) u) \<longrightarrow> next_n nd = None))"
  proof (cases "u = t")
    case True
    with o have "owned th' = Some n" by simp
    from assms(2)[OF this] True show ?thesis by auto
  next
    case False
    with o have ou: "owned (f u) = Some n" by simp
    from assms(3)[OF False ou] have a: "n \<notin> fst ` set axs'" "nodes s' n = nodes s n" by auto
    from assms(1) ou have old: "\<forall>t'. t' \<noteq> u \<longrightarrow> owned (f t') \<noteq> Some n"
      "\<exists>nd. nodes s n = Some nd \<and> (unlinked (f u) \<longrightarrow> next_n nd = None)"
      unfolding own_inv_def by blast+
    have "owned th' \<noteq> Some n"
    proof
      assume "owned th' = Some n"
      from assms(2)[OF this] False ou show False by auto
    qed
    with a old False show ?thesis by auto
  qed
qed

text \<open>Putting the invariant together after a move of thread \<open>t\<close>.\<close>

lemma system_inv_step:
  assumes inv: "system_inv C \<sigma> axs"
    and li: "list_inv s' axs'"
    and d1: "int (full s') + items_pending th' - count_q s' =
             int (full (shared \<sigma>)) + items_pending (threads \<sigma> t) - count_q (shared \<sigma>)"
    and d2: "int (empty_q s') + slots_pending th' + count_q s' =
             int (empty_q (shared \<sigma>)) + slots_pending (threads \<sigma> t) + count_q (shared \<sigma>)"
    and ne: "\<not> in_error_branch th'"
    and own: "own_inv s' ((threads \<sigma>)(t := th')) axs'"
  shows "system_inv C \<lparr>shared = s', threads = (threads \<sigma>)(t := th')\<rparr> axs'"
proof -
  from inv have fin: "finite {u. threads \<sigma> u \<noteq> Idle}"
    and n1: "count_q (shared \<sigma>) = int (full (shared \<sigma>)) + pending items_pending (threads \<sigma>)"
    and n2: "int C = int (empty_q (shared \<sigma>)) + count_q (shared \<sigma>) +
               pending slots_pending (threads \<sigma>)"
    and e: "\<And>u. \<not> in_error_branch (threads \<sigma> u)"
    by (simp_all add: system_inv_def)
  have p1: "pending items_pending ((threads \<sigma>)(t := th')) =
      pending items_pending (threads \<sigma>) - items_pending (threads \<sigma> t) + items_pending th'"
    by (rule pending_update[OF fin]) simp
  have p2: "pending slots_pending ((threads \<sigma>)(t := th')) =
      pending slots_pending (threads \<sigma>) - slots_pending (threads \<sigma> t) + slots_pending th'"
    by (rule pending_update[OF fin]) simp
  have "count_q s' = int (full s') + pending items_pending ((threads \<sigma>)(t := th'))"
    using n1 d1 p1 by linarith
  moreover have "int C = int (empty_q s') + count_q s' +
      pending slots_pending ((threads \<sigma>)(t := th'))"
    using n2 d2 p2 by linarith
  moreover have "finite {u. ((threads \<sigma>)(t := th')) u \<noteq> Idle}" by (rule finite_update[OF fin])
  moreover have "\<forall>u. \<not> in_error_branch (((threads \<sigma>)(t := th')) u)" using e ne by simp
  ultimately show ?thesis using li own by (simp add: system_inv_def)
qed

lemma system_inv_call_enqueue:
  assumes inv: "system_inv C \<sigma> axs" and idle: "threads \<sigma> t = Idle"
    and fr: "case newNode of None \<Rightarrow> True | Some n \<Rightarrow> nodes (shared \<sigma>) n = None"
    and en: "enqueue_entry newNode dat (shared \<sigma>) = (th', s')"
  shows "system_inv C \<lparr>shared = s', threads = (threads \<sigma>)(t := th')\<rparr> axs"
proof -
  from inv have li: "list_inv (shared \<sigma>) axs" and own: "own_inv (shared \<sigma>) (threads \<sigma>) axs"
    by (simp_all add: system_inv_def)
  note ownD = own[unfolded own_inv_def, rule_format]
  show ?thesis
  proof (cases newNode)
    case None
    with en have e: "th' = Enq_log_fail" "s' = shared \<sigma>" by (simp_all add: enqueue_entry_def)
    have "own_inv s' ((threads \<sigma>)(t := th')) axs"
      by (rule own_step[OF own]) (use ownD in \<open>auto simp: e\<close>)
    with li show ?thesis
      by (intro system_inv_step[OF inv]) (simp_all add: e idle)
  next
    case (Some n)
    with en have e: "th' = Enq_sem_wait n"
      "s' = (shared \<sigma>)\<lparr>nodes := (nodes (shared \<sigma>))(n \<mapsto> \<lparr>packet = dat, next_n = None\<rparr>)\<rparr>"
      by (simp_all add: enqueue_entry_def)
    from fr have fresh: "nodes (shared \<sigma>) n = None" by (simp add: Some)
    from li have c: "chain (nodes (shared \<sigma>)) (head (shared \<sigma>)) axs" by (simp add: list_inv_def)
    from chain_dom[OF c] fresh have nin: "n \<notin> fst ` set axs" by auto
    have li': "list_inv s' axs" using li nin by (simp add: list_inv_def e chain_upd_notin)
    have oth: "owned (threads \<sigma> u) \<noteq> Some n" for u
    proof
      assume "owned (threads \<sigma> u) = Some n"
      from ownD[OF this] fresh show False by auto
    qed
    have "own_inv s' ((threads \<sigma>)(t := th')) axs"
    proof (rule own_step[OF own])
      fix m assume "owned th' = Some m"
      then have "m = n" by (simp add: e)
      then show "m \<notin> fst ` set axs \<and> (\<forall>u. u \<noteq> t \<longrightarrow> owned (threads \<sigma> u) \<noteq> Some m) \<and>
           (\<exists>nd. nodes s' m = Some nd \<and> (unlinked th' \<longrightarrow> next_n nd = None))"
        using nin oth by (simp add: e)
    next
      fix u m assume "u \<noteq> t" and o: "owned (threads \<sigma> u) = Some m"
      from oth[of u] o have "m \<noteq> n" by auto
      with ownD[OF o] show "m \<notin> fst ` set axs \<and> nodes s' m = nodes (shared \<sigma>) m"
        by (simp add: e)
    qed
    with li' show ?thesis
      by (intro system_inv_step[OF inv]) (simp_all add: e idle)
  qed
qed

lemma system_inv_call_dequeue:
  assumes inv: "system_inv C \<sigma> axs" and idle: "threads \<sigma> t = Idle"
  shows "system_inv C \<lparr>shared = shared \<sigma>, threads = (threads \<sigma>)(t := Deq_sem_wait)\<rparr> axs"
proof -
  from inv have li: "list_inv (shared \<sigma>) axs" and own: "own_inv (shared \<sigma>) (threads \<sigma>) axs"
    by (simp_all add: system_inv_def)
  note ownD = own[unfolded own_inv_def, rule_format]
  have "own_inv (shared \<sigma>) ((threads \<sigma>)(t := Deq_sem_wait)) axs"
    by (rule own_step[OF own]) (use ownD in auto)
  with li show ?thesis
    by (intro system_inv_step[OF inv]) (simp_all add: idle)
qed

lemma system_inv_stmt:
  assumes inv: "system_inv C \<sigma> axs"
    and st: "stmt t (threads \<sigma> t) (shared \<sigma>) = Some (l, th', s')"
  shows "\<exists>axs'. system_inv C \<lparr>shared = s', threads = (threads \<sigma>)(t := th')\<rparr> axs'"
proof -
  let ?s = "shared \<sigma>" and ?th = "threads \<sigma> t"
  from inv have li: "list_inv ?s axs" and own: "own_inv ?s (threads \<sigma>) axs"
    and fin: "finite {u. threads \<sigma> u \<noteq> Idle}"
    and n1: "count_q ?s = int (full ?s) + pending items_pending (threads \<sigma>)"
    and ne: "\<not> in_error_branch ?th"
    by (simp_all add: system_inv_def)
  note ownD = own[unfolded own_inv_def, rule_format]
  have hd: "head ?s \<noteq> None" if "?th = Deq_test"
  proof -
    have "items_pending ?th \<le> pending items_pending (threads \<sigma>)"
      by (rule pending_ge[OF fin]) (simp_all add: items_pending_nonneg)
    with n1 that have "1 \<le> count_q ?s" by simp
    with li show ?thesis by (cases axs) (auto simp: list_inv_def)
  qed
  have ne': "\<not> in_error_branch th'"
    using stmt_error[OF st] ne hd by auto
  note num = stmt_numeric[OF st ne ne']
  consider (link) n where "?th = Enq_link n" | (test) "?th = Deq_test"
    | (free) n x where "?th = Deq_free n x"
    | (other) "\<forall>n. ?th \<noteq> Enq_link n" "?th \<noteq> Deq_test" "\<forall>n x. ?th \<noteq> Deq_free n x"
    by blast
  then show ?thesis
  proof cases
    case (link n)
    then have o: "owned ?th = Some n" "unlinked ?th" by simp_all
    from ownD[OF o(1)] o(2) obtain nd where nin: "n \<notin> fst ` set axs"
      and uniq: "\<And>u. u \<noteq> t \<Longrightarrow> owned (threads \<sigma> u) \<noteq> Some n"
      and nd: "nodes ?s n = Some nd" "next_n nd = None" by auto
    have "nd = \<lparr>packet = packet nd, next_n = None\<rparr>" using nd(2) by (cases nd) simp
    with nd(1) have "nodes ?s n = Some \<lparr>packet = packet nd, next_n = None\<rparr>" by simp
    from enqueue_link_ok[OF li this nin] obtain s1 where s1: "enqueue_link n ?s = Some s1"
      "list_inv s1 (axs @ [(n, packet nd)])"
      "\<And>a. a \<notin> fst ` set axs \<Longrightarrow> nodes s1 a = nodes ?s a" by blast
    from st link s1(1) have e: "th' = Enq_unlock" "s' = s1" by simp_all
    have "own_inv s' ((threads \<sigma>)(t := th')) (axs @ [(n, packet nd)])"
    proof (rule own_step[OF own])
      fix m assume "owned th' = Some m"
      then show "m \<notin> fst ` set (axs @ [(n, packet nd)]) \<and>
           (\<forall>u. u \<noteq> t \<longrightarrow> owned (threads \<sigma> u) \<noteq> Some m) \<and>
           (\<exists>nd. nodes s' m = Some nd \<and> (unlinked th' \<longrightarrow> next_n nd = None))"
        by (simp add: e)
    next
      fix u m assume u: "u \<noteq> t" and om: "owned (threads \<sigma> u) = Some m"
      from uniq[OF u] om have "m \<noteq> n" by auto
      moreover from ownD[OF om] have "m \<notin> fst ` set axs" by simp
      ultimately show "m \<notin> fst ` set (axs @ [(n, packet nd)]) \<and> nodes s' m = nodes ?s m"
        using s1(3) by (simp add: e)
    qed
    with s1(2) num have "system_inv C \<lparr>shared = s', threads = (threads \<sigma>)(t := th')\<rparr>
        (axs @ [(n, packet nd)])"
      by (intro system_inv_step[OF inv]) (simp_all add: e ne')
    then show ?thesis ..
  next
    case test
    from hd[OF test] li obtain a x axs' where axs: "axs = (a, x) # axs'"
      by (cases axs) (auto simp: list_inv_def)
    from dequeue_unlink_ok[OF li[unfolded axs]] obtain s1 where
      s1: "dequeue_unlink a ?s = Some (s1, x)" "head ?s = Some a" "nodes s1 = nodes ?s"
      "list_inv s1 axs'" "a \<notin> fst ` set axs'" by blast
    from st test s1(1,2) have e: "th' = Deq_unlock a x" "s' = s1" by simp_all
    from li have "chain (nodes ?s) (head ?s) axs" by (simp add: list_inv_def)
    from chain_dom[OF this] obtain nd where nd: "nodes ?s a = Some nd" by (auto simp: axs)
    have "own_inv s' ((threads \<sigma>)(t := th')) axs'"
    proof (rule own_step[OF own])
      fix m assume "owned th' = Some m"
      then have m: "m = a" by (simp add: e)
      have "owned (threads \<sigma> u) \<noteq> Some a" for u
      proof
        assume "owned (threads \<sigma> u) = Some a"
        from ownD[OF this] show False by (simp add: axs)
      qed
      then show "m \<notin> fst ` set axs' \<and> (\<forall>u. u \<noteq> t \<longrightarrow> owned (threads \<sigma> u) \<noteq> Some m) \<and>
           (\<exists>nd. nodes s' m = Some nd \<and> (unlinked th' \<longrightarrow> next_n nd = None))"
        using s1(3,5) nd by (simp add: m e)
    next
      fix u m assume "u \<noteq> t" and om: "owned (threads \<sigma> u) = Some m"
      from ownD[OF om] show "m \<notin> fst ` set axs' \<and> nodes s' m = nodes ?s m"
        using s1(3) by (auto simp: axs e)
    qed
    with s1(4) num have "system_inv C \<lparr>shared = s', threads = (threads \<sigma>)(t := th')\<rparr> axs'"
      by (intro system_inv_step[OF inv]) (simp_all add: e ne')
    then show ?thesis ..
  next
    case (free n x)
    with st have e: "th' = Deq_log x" "s' = ?s\<lparr>nodes := (nodes ?s)(n := None)\<rparr>" by simp_all
    from free have o: "owned ?th = Some n" by simp
    from ownD[OF o] have nin: "n \<notin> fst ` set axs"
      and uniq: "\<And>u. u \<noteq> t \<Longrightarrow> owned (threads \<sigma> u) \<noteq> Some n" by auto
    have li': "list_inv s' axs" using li nin by (simp add: list_inv_def e chain_upd_notin)
    have "own_inv s' ((threads \<sigma>)(t := th')) axs"
    proof (rule own_step[OF own])
      fix m assume "owned th' = Some m"
      then show "m \<notin> fst ` set axs \<and> (\<forall>u. u \<noteq> t \<longrightarrow> owned (threads \<sigma> u) \<noteq> Some m) \<and>
           (\<exists>nd. nodes s' m = Some nd \<and> (unlinked th' \<longrightarrow> next_n nd = None))"
        by (simp add: e)
    next
      fix u m assume u: "u \<noteq> t" and om: "owned (threads \<sigma> u) = Some m"
      from uniq[OF u] om have "m \<noteq> n" by auto
      with ownD[OF om] show "m \<notin> fst ` set axs \<and> nodes s' m = nodes ?s m"
        by (simp add: e)
    qed
    with li' num have "system_inv C \<lparr>shared = s', threads = (threads \<sigma>)(t := th')\<rparr> axs"
      by (intro system_inv_step[OF inv]) (simp_all add: e ne')
    then show ?thesis ..
  next
    case other
    from stmt_frame[OF st other] have fr: "nodes s' = nodes ?s" "head s' = head ?s"
      "tail s' = tail ?s" "count_q s' = count_q ?s" "owned th' = owned ?th"
      "unlinked th' = unlinked ?th" by simp_all
    have li': "list_inv s' axs" by (rule list_inv_frame[OF li fr(1-4)])
    have "own_inv s' ((threads \<sigma>)(t := th')) axs"
    proof (rule own_step[OF own])
      fix m assume "owned th' = Some m"
      then have "owned ?th = Some m" by (simp add: fr)
      from ownD[OF this] show "m \<notin> fst ` set axs \<and> (\<forall>u. u \<noteq> t \<longrightarrow> owned (threads \<sigma> u) \<noteq> Some m) \<and>
           (\<exists>nd. nodes s' m = Some nd \<and> (unlinked th' \<longrightarrow> next_n nd = None))"
        by (simp add: fr)
    next
      fix u m assume "u \<noteq> t" and om: "owned (threads \<sigma> u) = Some m"
      from ownD[OF om] show "m \<notin> fst ` set axs \<and> nodes s' m = nodes ?s m"
        by (simp add: fr)
    qed
    with li' num have "system_inv C \<lparr>shared = s', threads = (threads \<sigma>)(t := th')\<rparr> axs"
      by (intro system_inv_step[OF inv]) (simp_all add: ne')
    then show ?thesis ..
  qed
qed

lemma system_inv_move:
  assumes inv: "system_inv C \<sigma> axs" and mv: "move m \<sigma> = Some (t, l, \<sigma>')"
  shows "\<exists>axs'. system_inv C \<sigma>' axs'"
proof (cases m)
  case (Call_enqueue u newNode dat)
  obtain th' s' where en: "enqueue_entry newNode dat (shared \<sigma>) = (th', s')"
    by (cases "enqueue_entry newNode dat (shared \<sigma>)")
  from mv have c: "threads \<sigma> u = Idle"
    "case newNode of None \<Rightarrow> True | Some n \<Rightarrow> nodes (shared \<sigma>) n = None"
    and \<sigma>': "\<sigma>' = \<lparr>shared = s', threads = (threads \<sigma>)(u := th')\<rparr>"
    by (auto simp: Call_enqueue en split: if_splits)
  from system_inv_call_enqueue[OF inv c en] show ?thesis unfolding \<sigma>' ..
next
  case (Call_dequeue u)
  from mv have c: "threads \<sigma> u = Idle"
    and \<sigma>': "\<sigma>' = \<lparr>shared = shared \<sigma>, threads = (threads \<sigma>)(u := Deq_sem_wait)\<rparr>"
    by (auto simp: Call_dequeue split: if_splits)
  from system_inv_call_dequeue[OF inv c] show ?thesis unfolding \<sigma>' ..
next
  case (Step u)
  from mv obtain th' s' where st: "stmt u (threads \<sigma> u) (shared \<sigma>) = Some (l, th', s')"
    and \<sigma>': "\<sigma>' = \<lparr>shared = s', threads = (threads \<sigma>)(u := th')\<rparr>"
    by (auto simp: Step split: option.splits)
  from system_inv_stmt[OF inv st] show ?thesis unfolding \<sigma>' .
qed

lemma system_inv_boot: "system_inv C (boot C s0) []"
  by (simp add: system_inv_def boot_def list_inv_def own_inv_def pending_def
      initializeQueue_def log_message_def)

lemma system_inv_moves:
  "system_inv C \<sigma> axs \<Longrightarrow> moves ms \<sigma> = Some (tr, \<sigma>') \<Longrightarrow> \<exists>axs'. system_inv C \<sigma>' axs'"
proof (induction ms arbitrary: \<sigma> axs tr)
  case Nil
  then show ?case by auto
next
  case (Cons m ms)
  from Cons.prems(2) obtain t l \<sigma>1 tr1 where m: "move m \<sigma> = Some (t, l, \<sigma>1)"
    and r: "moves ms \<sigma>1 = Some (tr1, \<sigma>')"
    by (auto split: option.splits)
  from system_inv_move[OF Cons.prems(1) m] obtain axs1 where "system_inv C \<sigma>1 axs1" ..
  from Cons.IH[OF this r] show ?case .
qed

text \<open>
  In every interleaving of threads calling \<open>enqueue\<close> and \<open>dequeue\<close> on an initialised queue
  of capacity \<open>C\<close>: the count is between 0 and \<open>C\<close> and is the number of packets in the
  list; no thread is in the branch of \<open>dequeue\<close> for the empty list; a thread at a critical
  section has a step, so no pointer to an unallocated node is followed; and when
  \<open>count = C\<close> the semaphore \<open>empty\<close> is 0, so that \<open>sem_wait\<close> lets no \<open>enqueue\<close> pass.
\<close>

lemma interleaving_invariant:
  assumes "moves ms (boot C s0) = Some (tr, \<sigma>)"
  shows "count_consistent C (shared \<sigma>)"
    and "\<not> in_error_branch (threads \<sigma> t)"
    and "threads \<sigma> t = Enq_link n \<or> threads \<sigma> t = Deq_test \<Longrightarrow>
         stmt t (threads \<sigma> t) (shared \<sigma>) \<noteq> None"
    and "count_q (shared \<sigma>) = int C \<Longrightarrow>
         empty_q (shared \<sigma>) = 0 \<and> stmt t (Enq_sem_wait n) (shared \<sigma>) = None"
proof -
  from system_inv_moves[OF system_inv_boot assms] obtain axs where inv: "system_inv C \<sigma> axs" ..
  then have li: "list_inv (shared \<sigma>) axs"
    and fin: "finite {u. threads \<sigma> u \<noteq> Idle}"
    and n2: "int C = int (empty_q (shared \<sigma>)) + count_q (shared \<sigma>) +
               pending slots_pending (threads \<sigma>)"
    by (simp_all add: system_inv_def)
  have p: "0 \<le> pending slots_pending (threads \<sigma>)"
    unfolding pending_def by (rule sum_nonneg) (rule slots_pending_nonneg)
  show "count_consistent C (shared \<sigma>)"
    using li n2 p by (auto simp: count_consistent_def stored_list_inv list_inv_def)
  show "\<not> in_error_branch (threads \<sigma> t)" using inv by (simp add: system_inv_def)
  show "stmt t (threads \<sigma> t) (shared \<sigma>) \<noteq> None"
    if "threads \<sigma> t = Enq_link n \<or> threads \<sigma> t = Deq_test"
  proof
    assume none: "stmt t (threads \<sigma> t) (shared \<sigma>) = None"
    have "\<exists>l th' s'. stmt t (threads \<sigma> t) (shared \<sigma>) = Some (l, th', s')"
      using that
    proof
      assume th: "threads \<sigma> t = Enq_link n"
      from inv have own: "own_inv (shared \<sigma>) (threads \<sigma>) axs" by (simp add: system_inv_def)
      have "owned (threads \<sigma> t) = Some n" "unlinked (threads \<sigma> t)" by (simp_all add: th)
      with own obtain nd where nin: "n \<notin> fst ` set axs" and nd: "nodes (shared \<sigma>) n = Some nd"
        "next_n nd = None" unfolding own_inv_def by blast
      have "nd = \<lparr>packet = packet nd, next_n = None\<rparr>" using nd(2) by (cases nd) simp
      with nd(1) have "nodes (shared \<sigma>) n = Some \<lparr>packet = packet nd, next_n = None\<rparr>" by simp
      from enqueue_link_ok[OF li this nin] show ?thesis by (auto simp: th)
    next
      assume th: "threads \<sigma> t = Deq_test"
      show ?thesis
      proof (cases axs)
        case Nil
        with li show ?thesis by (simp add: th list_inv_def)
      next
        case (Cons ax axs')
        obtain a x where "ax = (a, x)" by (cases ax)
        with li Cons have "list_inv (shared \<sigma>) ((a, x) # axs')" by simp
        from dequeue_unlink_ok[OF this] show ?thesis by (auto simp: th)
      qed
    qed
    with none show False by simp
  qed
  show "empty_q (shared \<sigma>) = 0 \<and> stmt t (Enq_sem_wait n) (shared \<sigma>) = None"
    if "count_q (shared \<sigma>) = int C"
    using that n2 p by (simp add: sem_wait_def)
qed

end
